theory Spec2Isabelle
  imports Complex_Main "HOL-Library.Word"
begin

section \<open>Common data\<close>

text \<open>
  The C++ type \<open>unsigned\<close> is a 32-bit word: \<open>+\<close> and \<open>-\<close> wrap around and the
  order is the unsigned one. A \<open>double\<close> is idealised as a real number: the claims
  settled here are about which value is compared, skipped or registered, not about rounding
  error, NaN or overflow to infinity. A division by a coefficient that is exactly zero
  gives 0 here and an infinity or NaN in C++; the code reaches one only when the threshold
  for coefficients is not above the comparison tolerance. \<open>abs\<close> is the absolute value
  of a double.
\<close>

type_synonym u32 = "32 word"

datatype error =
    InfeasibleQueryException
  | DEBUGGING_ERROR
  | AssertionViolation
  | NullDereference
  | EmptyListAccess

text \<open>
  \<open>GlobalConfiguration\<close>, \<open>Options\<close> and \<open>Debug.h\<close> are not among the sources, so
  the constants the code reads from them are fields of a configuration record.
  \<open>assertionsEnabled\<close> says whether the \<open>ASSERT\<close> macro is compiled in.
\<close>

record GlobalConfiguration =
  DEFAULT_EPSILON_FOR_COMPARISONS :: real
  MINIMAL_COEFFICIENT_FOR_TIGHTENING :: real
  EXPLICIT_BASIS_BOUND_TIGHTENING_ROUNDING_CONSTANT :: real
  ROW_BOUND_TIGHTENER_SATURATION_ITERATIONS :: u32
  USE_LEAST_FIX :: bool
  assertionsEnabled :: bool

definition ASSERT :: "GlobalConfiguration \<Rightarrow> bool \<Rightarrow> error + 'a \<Rightarrow> error + 'a" where
  "ASSERT cfg b k = (if assertionsEnabled cfg \<and> \<not> b then Inl AssertionViolation else k)"

subsection \<open>FloatUtils\<close>

text \<open>
  Modelled from the spec: \<open>FloatUtils\<close> is not among the sources. The spec says that its
  comparisons use a fixed tolerance (section 4.A); the tolerance is the configuration's
  \<open>DEFAULT_EPSILON_FOR_COMPARISONS\<close>. \<open>isZero\<close> holds within the tolerance of zero,
  \<open>isPositive\<close> above it, and \<open>gt x y\<close> is \<open>isPositive (x - y)\<close>.
\<close>

definition isZero :: "GlobalConfiguration \<Rightarrow> real \<Rightarrow> bool" where
  "isZero cfg x =
     (- DEFAULT_EPSILON_FOR_COMPARISONS cfg \<le> x \<and> x \<le> DEFAULT_EPSILON_FOR_COMPARISONS cfg)"

definition isPositive :: "GlobalConfiguration \<Rightarrow> real \<Rightarrow> bool" where
  "isPositive cfg x = (DEFAULT_EPSILON_FOR_COMPARISONS cfg < x)"

definition gt :: "GlobalConfiguration \<Rightarrow> real \<Rightarrow> real \<Rightarrow> bool" where
  "gt cfg x y = isPositive cfg (x - y)"

definition lt :: "GlobalConfiguration \<Rightarrow> real \<Rightarrow> real \<Rightarrow> bool" where
  "lt cfg x y = gt cfg y x"

subsection \<open>Tightenings and case splits\<close>

datatype BoundType = LB | UB

datatype Tightening = Tightening (tVariable: nat) (tValue: real) (tType: BoundType)

type_synonym Equation = "(real \<times> nat) list \<times> real"

datatype PiecewiseLinearCaseSplit =
  CaseSplit (getBoundTightenings: "Tightening list") (getEquations: "Equation list")

section \<open>SmtCore: the decision stack\<close>

text \<open>
  A \<open>PiecewiseLinearConstraint *\<close> is the address of a constraint object; the objects
  live in a store that maps an address to the two things the decision stack uses: the
  activity flag and the list of case splits.
\<close>

type_synonym PLConstraint = nat

record PiecewiseLinearConstraint =
  isActive :: bool
  getCaseSplits :: "PiecewiseLinearCaseSplit list"

datatype TableauStateStorageLevel = STORE_BOUNDS_ONLY | STORE_ENTIRE_TABLEAU_STATE

text \<open>
  The engine and the context are collaborators. Every call the decision stack makes on
  them is appended to a trace; what the engine answers (\<open>consistentBounds\<close>,
  \<open>pickSplitPLConstraint\<close>) is a function of the trace so far, which makes the engine an
  arbitrary deterministic collaborator. The engine is taken to leave the context level, the
  constraint objects and the certificate pointer alone inside these calls. An
  \<open>EngineState\<close> snapshot is identified by its \<open>_stateId\<close>.
\<close>

datatype Call =
    ContextPush
  | ContextPop
  | ContextPopto int
  | PreContextPushHook
  | PostContextPopHook
  | StoreState u32 TableauStateStorageLevel
  | RestoreState u32
  | ApplySplit PiecewiseLinearCaseSplit
  | ExplainSimplexFailure
  | PickSplitPLConstraint

record IEngine =
  consistentBounds :: "Call list \<Rightarrow> bool"
  shouldProduceProofs :: bool
  inSnCMode :: bool
  pickSplitPLConstraint :: "Call list \<Rightarrow> PLConstraint option"

record SmtStackEntry =
  activeSplit :: PiecewiseLinearCaseSplit
  alternativeSplits :: "PiecewiseLinearCaseSplit list"
  impliedValidSplits :: "PiecewiseLinearCaseSplit list"
  engineState :: u32

text \<open>
  Modelled from the spec: \<open>UnsatCertificateNode\<close> is not among the sources. By section
  4.E a node is labelled by the case split that led to it and its children are addressable
  by case equality, so a node is the list of splits on the path from the root to it: the
  root is the empty path, the parent of a node is the path without its last split.
\<close>

type_synonym UnsatCertificateNode = "PiecewiseLinearCaseSplit list"

record SmtCore =
  stack :: "SmtStackEntry list"
  impliedValidSplitsAtRoot :: "PiecewiseLinearCaseSplit list"
  needToSplit :: bool
  constraintForSplitting :: "PLConstraint option"
  stateId :: u32
  constraintToViolationCount :: "PLConstraint \<rightharpoonup> u32"
  constraintViolationThreshold :: u32
  numRejectedPhasePatternProposal :: u32
  debuggingSolution :: "(nat \<times> real) list"
  statistics :: bool
  contextLevel :: int
  calls :: "Call list"
  constraints :: "PLConstraint \<Rightarrow> PiecewiseLinearConstraint"
  certificateNodes :: "UnsatCertificateNode list"
  certificateCurrentPointer :: "UnsatCertificateNode option"

subsection \<open>Violation counts and the least-fix heuristic\<close>

definition getViolationCounts :: "SmtCore \<Rightarrow> PLConstraint \<Rightarrow> u32" where
  "getViolationCounts s constraint =
     (case constraintToViolationCount s constraint of None \<Rightarrow> 0 | Some c \<Rightarrow> c)"

text \<open>
  The \<open>while\<close> loop of \<open>chooseViolatedConstraintForFixing\<close>: the iterator walks the
  rest of the list, \<open>candidate\<close> and \<open>minFixes\<close> are the loop's variables.
\<close>

fun leastFixLoop ::
  "SmtCore \<Rightarrow> PLConstraint list \<Rightarrow> PLConstraint \<Rightarrow> u32 \<Rightarrow> PLConstraint" where
  "leastFixLoop s [] candidate minFixes = candidate"
| "leastFixLoop s (contender # rest) candidate minFixes =
     (let contenderFixes = getViolationCounts s contender
      in if contenderFixes < minFixes
         then leastFixLoop s rest contender contenderFixes
         else leastFixLoop s rest candidate minFixes)"

definition chooseViolatedConstraintForFixing ::
  "GlobalConfiguration \<Rightarrow> SmtCore \<Rightarrow> PLConstraint list \<Rightarrow> error + PLConstraint" where
  "chooseViolatedConstraintForFixing cfg s violatedPlConstraints =
     ASSERT cfg (violatedPlConstraints \<noteq> [])
       (case violatedPlConstraints of
          [] \<Rightarrow> Inl EmptyListAccess
        | first # _ \<Rightarrow>
            if \<not> USE_LEAST_FIX cfg then Inr first
            else Inr (leastFixLoop s violatedPlConstraints first (getViolationCounts s first)))"

subsection \<open>Recording and listing splits\<close>


text \<open>
  \<open>allSplitsSoFar\<close> clears the result and appends in three nested loops; each loop is a
  left fold that appends one element at a time.
\<close>

definition appendAll :: "'a list \<Rightarrow> 'a list \<Rightarrow> 'a list" where
  "appendAll result xs = foldl (\<lambda>r it. r @ [it]) result xs"

definition allSplitsSoFar :: "SmtCore \<Rightarrow> PiecewiseLinearCaseSplit list" where
  "allSplitsSoFar s =
     foldl (\<lambda>result it. appendAll (result @ [activeSplit it]) (impliedValidSplits it))
       (appendAll [] (impliedValidSplitsAtRoot s)) (stack s)"

subsection \<open>Context and engine calls\<close>

definition engineCall :: "Call \<Rightarrow> SmtCore \<Rightarrow> SmtCore" where
  "engineCall c s = s\<lparr>calls := calls s @ [c]\<rparr>"

text \<open>
  Modelled from the spec: the context is not among the sources. By the glossary its level
  is an integer that increases on \<open>push()\<close> and decreases on \<open>pop()\<close>. The statistics
  counters and timers around the two calls do not feed back into the control flow and are
  left out.
\<close>

definition popContext :: "SmtCore \<Rightarrow> SmtCore" where
  "popContext s = (engineCall ContextPop s)\<lparr>contextLevel := contextLevel s - 1\<rparr>"

definition pushContext :: "SmtCore \<Rightarrow> SmtCore" where
  "pushContext s = (engineCall ContextPush s)\<lparr>contextLevel := contextLevel s + 1\<rparr>"

definition getStackDepth :: "GlobalConfiguration \<Rightarrow> IEngine \<Rightarrow> SmtCore \<Rightarrow> error + u32" where
  "getStackDepth cfg eng s =
     ASSERT cfg
       (inSnCMode eng \<or> (of_nat (length (stack s)) :: u32) = word_of_int (contextLevel s))
       (Inr (of_nat (length (stack s))))"

text \<open>
  The block \<open>if ( _statistics ) { unsigned level = getStackDepth(); ... }\<close> that ends
  \<open>performSplit\<close>, \<open>popSplit\<close> and \<open>replaySmtStackEntry\<close>: only the assertion of
  \<open>getStackDepth\<close> can be observed.
\<close>

definition statisticsDecisionLevel ::
  "GlobalConfiguration \<Rightarrow> IEngine \<Rightarrow> SmtCore \<Rightarrow> error + SmtCore" where
  "statisticsDecisionLevel cfg eng s =
     (if statistics s
      then (case getStackDepth cfg eng s of Inl e \<Rightarrow> Inl e | Inr level \<Rightarrow> Inr s)
      else Inr s)"

subsection \<open>The debugging solution\<close>

text \<open>The \<open>for\<close> loop of \<open>splitAllowsStoredSolution\<close> over the bound tightenings.\<close>

fun boundsAllowStoredSolution ::
  "GlobalConfiguration \<Rightarrow> (nat \<times> real) list \<Rightarrow> Tightening list \<Rightarrow> bool" where
  "boundsAllowStoredSolution cfg dbg [] = True"
| "boundsAllowStoredSolution cfg dbg (bound # rest) =
     (case map_of dbg (tVariable bound) of
        None \<Rightarrow> boundsAllowStoredSolution cfg dbg rest
      | Some solutionValue \<Rightarrow>
          if tType bound = LB \<and> gt cfg (tValue bound) solutionValue then False
          else if tType bound = UB \<and> lt cfg (tValue bound) solutionValue then False
          else boundsAllowStoredSolution cfg dbg rest)"

definition splitAllowsStoredSolution ::
  "GlobalConfiguration \<Rightarrow> SmtCore \<Rightarrow> PiecewiseLinearCaseSplit \<Rightarrow> bool" where
  "splitAllowsStoredSolution cfg s split =
     (if debuggingSolution s = [] then True
      else boundsAllowStoredSolution cfg (debuggingSolution s) (getBoundTightenings split))"

text \<open>The loop of \<open>checkSkewFromDebuggingSolution\<close> over the stack, oldest frame first.\<close>

fun checkSkewStack ::
  "GlobalConfiguration \<Rightarrow> SmtCore \<Rightarrow> SmtStackEntry list \<Rightarrow> error + bool" where
  "checkSkewStack cfg s [] = Inr True"
| "checkSkewStack cfg s (stackEntry # rest) =
     (if \<not> splitAllowsStoredSolution cfg s (activeSplit stackEntry)
      then (if alternativeSplits stackEntry = [] then Inl DEBUGGING_ERROR else Inr False)
      else if \<not> list_all (splitAllowsStoredSolution cfg s) (impliedValidSplits stackEntry)
      then Inl DEBUGGING_ERROR
      else checkSkewStack cfg s rest)"

definition checkSkewFromDebuggingSolution ::
  "GlobalConfiguration \<Rightarrow> SmtCore \<Rightarrow> error + bool" where
  "checkSkewFromDebuggingSolution cfg s =
     (if debuggingSolution s = [] then Inr False
      else if \<not> list_all (splitAllowsStoredSolution cfg s) (impliedValidSplitsAtRoot s)
      then Inl DEBUGGING_ERROR
      else checkSkewStack cfg s (stack s))"

text \<open>
  \<open>if ( checkSkewFromDebuggingSolution() ) throw MarabouError( DEBUGGING_ERROR )\<close>, as
  \<open>popSplit\<close> has it twice.
\<close>

definition throwIfCompliant :: "GlobalConfiguration \<Rightarrow> SmtCore \<Rightarrow> error + unit" where
  "throwIfCompliant cfg s =
     (case checkSkewFromDebuggingSolution cfg s of
        Inl e \<Rightarrow> Inl e
      | Inr compliant \<Rightarrow> if compliant then Inl DEBUGGING_ERROR else Inr ())"

subsection \<open>The certificate tree\<close>

definition getParent :: "UnsatCertificateNode \<Rightarrow> UnsatCertificateNode option" where
  "getParent node = (if node = [] then None else Some (butlast node))"

definition getSplit :: "UnsatCertificateNode \<Rightarrow> PiecewiseLinearCaseSplit" where
  "getSplit node = (if node = [] then CaseSplit [] [] else last node)"

definition getChildBySplit ::
  "SmtCore \<Rightarrow> UnsatCertificateNode \<Rightarrow> PiecewiseLinearCaseSplit \<Rightarrow> UnsatCertificateNode option" where
  "getChildBySplit s node split =
     (if node @ [split] \<in> set (certificateNodes s) then Some (node @ [split]) else None)"

definition getUNSATCertificateRoot :: "SmtCore \<Rightarrow> UnsatCertificateNode option" where
  "getUNSATCertificateRoot s = (if [] \<in> set (certificateNodes s) then Some [] else None)"

text \<open>
  The \<open>new UnsatCertificateNode( certificateNode, childSplit )\<close> loop of \<open>performSplit\<close>.
  A null \<open>certificateNode\<close> fails the assertion, or is dereferenced a few lines later
  when assertions are compiled out.
\<close>

definition certificateAddChildren ::
  "GlobalConfiguration \<Rightarrow> IEngine \<Rightarrow> PiecewiseLinearCaseSplit list \<Rightarrow> SmtCore \<Rightarrow> error + SmtCore" where
  "certificateAddChildren cfg eng splits s =
     (if shouldProduceProofs eng \<and> getUNSATCertificateRoot s \<noteq> None
      then (case certificateCurrentPointer s of
              None \<Rightarrow> Inl (if assertionsEnabled cfg then AssertionViolation else NullDereference)
            | Some certificateNode \<Rightarrow>
                Inr (s\<lparr>certificateNodes :=
                          certificateNodes s @ map (\<lambda>childSplit. certificateNode @ [childSplit]) splits\<rparr>))
      else Inr s)"

definition certificateEnterChild ::
  "GlobalConfiguration \<Rightarrow> IEngine \<Rightarrow> PiecewiseLinearCaseSplit \<Rightarrow> SmtCore \<Rightarrow> error + SmtCore" where
  "certificateEnterChild cfg eng split s =
     (if shouldProduceProofs eng \<and> getUNSATCertificateRoot s \<noteq> None
      then (case certificateCurrentPointer s of
              None \<Rightarrow> Inl NullDereference
            | Some certificateNode \<Rightarrow>
                (case getChildBySplit s certificateNode split of
                   None \<Rightarrow> Inl (if assertionsEnabled cfg then AssertionViolation else NullDereference)
                 | Some firstSplitChild \<Rightarrow>
                     ASSERT cfg (getSplit firstSplitChild = split)
                       (Inr (s\<lparr>certificateCurrentPointer := Some firstSplitChild\<rparr>))))
      else Inr s)"

text \<open>
  In \<open>popSplit\<close>, a removed frame moves the current pointer to its parent, and the chosen
  alternative is looked up among the children of the current node and then of its
  ancestors (the \<open>while ( !splitChild )\<close> loop).
\<close>

definition certificateLeaveChild :: "IEngine \<Rightarrow> SmtCore \<Rightarrow> SmtCore" where
  "certificateLeaveChild eng s =
     (case certificateCurrentPointer s of
        Some certificateNode \<Rightarrow>
          if shouldProduceProofs eng
          then s\<lparr>certificateCurrentPointer := getParent certificateNode\<rparr>
          else s
      | None \<Rightarrow> s)"

function findSplitChild ::
  "GlobalConfiguration \<Rightarrow> SmtCore \<Rightarrow> UnsatCertificateNode \<Rightarrow> PiecewiseLinearCaseSplit
    \<Rightarrow> error + UnsatCertificateNode" where
  "findSplitChild cfg s certificateNode split =
     (case getChildBySplit s certificateNode split of
        Some splitChild \<Rightarrow> Inr splitChild
      | None \<Rightarrow>
          (case getParent certificateNode of
             None \<Rightarrow> Inl (if assertionsEnabled cfg then AssertionViolation else NullDereference)
           | Some parent \<Rightarrow> findSplitChild cfg s parent split))"
  by pat_completeness auto
termination
  by (relation "measure (\<lambda>(cfg, s, node, split). length node)")
     (auto simp: getParent_def split: if_splits)

declare findSplitChild.simps [simp del]

definition certificateFindChild ::
  "GlobalConfiguration \<Rightarrow> IEngine \<Rightarrow> PiecewiseLinearCaseSplit \<Rightarrow> SmtCore \<Rightarrow> error + SmtCore" where
  "certificateFindChild cfg eng split s =
     (case certificateCurrentPointer s of
        Some certificateNode \<Rightarrow>
          if shouldProduceProofs eng
          then (case findSplitChild cfg s certificateNode split of
                  Inl e \<Rightarrow> Inl e
                | Inr splitChild \<Rightarrow>
                    ASSERT cfg (getSplit splitChild = split)
                      (Inr (s\<lparr>certificateCurrentPointer := Some splitChild\<rparr>)))
          else Inr s
      | None \<Rightarrow> Inr s)"

subsection \<open>Recording an implied valid split\<close>

text \<open>
  The split goes to the newest frame, or to the root list when the stack is empty. The
  closing \<open>checkSkewFromDebuggingSolution()\<close> discards its result but may throw.
\<close>

definition recordImpliedValidSplit ::
  "GlobalConfiguration \<Rightarrow> PiecewiseLinearCaseSplit \<Rightarrow> SmtCore \<Rightarrow> error + SmtCore" where
  "recordImpliedValidSplit cfg validSplit s =
     (let s1 =
        (if stack s = []
         then s\<lparr>impliedValidSplitsAtRoot := impliedValidSplitsAtRoot s @ [validSplit]\<rparr>
         else s\<lparr>stack := butlast (stack s) @
                [(last (stack s))\<lparr>impliedValidSplits :=
                    impliedValidSplits (last (stack s)) @ [validSplit]\<rparr>]\<rparr>)
      in case checkSkewFromDebuggingSolution cfg s1 of Inl e \<Rightarrow> Inl e | Inr compliant \<Rightarrow> Inr s1)"

subsection \<open>Reporting violations\<close>

definition pickSplitPLConstraintSmt :: "IEngine \<Rightarrow> SmtCore \<Rightarrow> bool \<times> SmtCore" where
  "pickSplitPLConstraintSmt eng s =
     (let s1 =
        (if needToSplit s
         then (engineCall PickSplitPLConstraint s)
                \<lparr>constraintForSplitting := pickSplitPLConstraint eng (calls s)\<rparr>
         else s)
      in (constraintForSplitting s1 \<noteq> None, s1))"

definition reportViolatedConstraint :: "IEngine \<Rightarrow> PLConstraint \<Rightarrow> SmtCore \<Rightarrow> SmtCore" where
  "reportViolatedConstraint eng constraint s =
     (let count = getViolationCounts s constraint + 1;
          s1 = s\<lparr>constraintToViolationCount := (constraintToViolationCount s)(constraint \<mapsto> count)\<rparr>
      in if constraintViolationThreshold s1 \<le> count
         then (case pickSplitPLConstraintSmt eng (s1\<lparr>needToSplit := True\<rparr>) of
                 (picked, s2) \<Rightarrow>
                   if \<not> picked then s2\<lparr>constraintForSplitting := Some constraint\<rparr> else s2)
         else s1)"

definition resetSplitConditions :: "SmtCore \<Rightarrow> SmtCore" where
  "resetSplitConditions s =
     s\<lparr>constraintToViolationCount := Map.empty,
       numRejectedPhasePatternProposal := 0,
       needToSplit := False\<rparr>"

definition reset :: "SmtCore \<Rightarrow> SmtCore" where
  "reset s =
     (engineCall PostContextPopHook (engineCall (ContextPopto 0) s))
       \<lparr>contextLevel := 0,
        stack := [],
        impliedValidSplitsAtRoot := [],
        needToSplit := False,
        constraintForSplitting := None,
        stateId := 0,
        constraintToViolationCount := Map.empty,
        numRejectedPhasePatternProposal := 0\<rparr>"

subsection \<open>performSplit\<close>

definition performSplit :: "GlobalConfiguration \<Rightarrow> IEngine \<Rightarrow> SmtCore \<Rightarrow> error + SmtCore" where
  "performSplit cfg eng s0 =
     ASSERT cfg (needToSplit s0)
       (let s = s0\<lparr>numRejectedPhasePatternProposal := 0\<rparr>
        in case constraintForSplitting s of
             None \<Rightarrow> Inl NullDereference
           | Some c \<Rightarrow>
               if \<not> isActive (constraints s c)
               then Inr (s\<lparr>needToSplit := False,
                           constraintToViolationCount := (constraintToViolationCount s)(c \<mapsto> 0),
                           constraintForSplitting := None\<rparr>)
               else
                 (let splits = getCaseSplits (constraints s c)
                  in ASSERT cfg (splits \<noteq> [])
                      (ASSERT cfg (2 \<le> length splits)
                        (let stateBeforeSplits = stateId s;
                             s1 = s\<lparr>needToSplit := False,
                                    constraints := (constraints s)
                                      (c := (constraints s c)\<lparr>isActive := False\<rparr>),
                                    stateId := stateId s + 1\<rparr>;
                             s2 = pushContext
                                    (engineCall PreContextPushHook
                                      (engineCall (StoreState stateBeforeSplits STORE_BOUNDS_ONLY) s1))
                         in case certificateAddChildren cfg eng splits s2 of
                              Inl e \<Rightarrow> Inl e
                            | Inr s3 \<Rightarrow>
                                (case splits of
                                   [] \<Rightarrow> Inl EmptyListAccess
                                 | split # remaining \<Rightarrow>
                                     ASSERT cfg (getEquations split = [])
                                       (case certificateEnterChild cfg eng split s3 of
                                          Inl e \<Rightarrow> Inl e
                                        | Inr s4 \<Rightarrow>
                                            (let stackEntry =
                                                   \<lparr>activeSplit = split,
                                                    alternativeSplits = remaining,
                                                    impliedValidSplits = [],
                                                    engineState = stateBeforeSplits\<rparr>;
                                                 s5 = (engineCall (ApplySplit split) s4)
                                                        \<lparr>stack := stack s4 @ [stackEntry]\<rparr>
                                             in case statisticsDecisionLevel cfg eng s5 of
                                                  Inl e \<Rightarrow> Inl e
                                                | Inr s6 \<Rightarrow>
                                                    Inr (s6\<lparr>constraintForSplitting := None\<rparr>))))))))"

subsection \<open>replaySmtStackEntry\<close>

definition replaySmtStackEntry ::
  "GlobalConfiguration \<Rightarrow> IEngine \<Rightarrow> SmtStackEntry \<Rightarrow> SmtCore \<Rightarrow> error + SmtCore" where
  "replaySmtStackEntry cfg eng stackEntry s =
     (let stateBeforeSplits = stateId s;
          s1 = engineCall (StoreState stateBeforeSplits STORE_ENTIRE_TABLEAU_STATE)
                 (s\<lparr>stateId := stateId s + 1\<rparr>);
          s2 = foldl (\<lambda>st impliedSplit. engineCall (ApplySplit impliedSplit) st)
                 (engineCall (ApplySplit (activeSplit stackEntry)) s1)
                 (impliedValidSplits stackEntry);
          s3 = s2\<lparr>stack := stack s2 @ [stackEntry\<lparr>engineState := stateBeforeSplits\<rparr>]\<rparr>
      in statisticsDecisionLevel cfg eng s3)"

subsection \<open>popSplit\<close>

text \<open>
  The inner loop \<open>while ( _stack.back()->_alternativeSplits.empty() )\<close>. It yields
  \<open>False\<close> with the state when the stack ran empty (where \<open>popSplit\<close> returns false)
  and \<open>True\<close> when the newest frame has an alternative left.
\<close>

function popExhaustedEntries ::
  "GlobalConfiguration \<Rightarrow> IEngine \<Rightarrow> SmtCore \<Rightarrow> error + (bool \<times> SmtCore)" where
  "popExhaustedEntries cfg eng s =
     (if stack s = [] then Inl EmptyListAccess
      else if alternativeSplits (last (stack s)) \<noteq> [] then Inr (True, s)
      else (case throwIfCompliant cfg s of
              Inl e \<Rightarrow> Inl e
            | Inr u \<Rightarrow>
                (let s1 = certificateLeaveChild eng (popContext (s\<lparr>stack := butlast (stack s)\<rparr>))
                 in if stack s1 = [] then Inr (False, s1)
                    else popExhaustedEntries cfg eng s1)))"
  by pat_completeness auto
termination
  by (relation "measure (\<lambda>(cfg, eng, s). length (stack s))")
     (auto simp: certificateLeaveChild_def popContext_def engineCall_def split: option.splits)

declare popExhaustedEntries.simps [simp del]

text \<open>
  The rest of the outer loop's body: pop the context, restore the frame's snapshot, clear
  its implied splits, and apply the head of its alternatives under a fresh context level.
\<close>

definition applyAlternativeSplit ::
  "GlobalConfiguration \<Rightarrow> IEngine \<Rightarrow> SmtCore \<Rightarrow> error + SmtCore" where
  "applyAlternativeSplit cfg eng s =
     (if stack s = [] then Inl EmptyListAccess
      else
        (let stackEntry = last (stack s);
             s1 = engineCall (RestoreState (engineState stackEntry))
                    (engineCall PostContextPopHook (popContext s))
         in case alternativeSplits stackEntry of
              [] \<Rightarrow> Inl EmptyListAccess
            | split # remaining \<Rightarrow>
                (case certificateFindChild cfg eng split s1 of
                   Inl e \<Rightarrow> Inl e
                 | Inr s2 \<Rightarrow>
                     ASSERT cfg (getEquations split = [])
                       (let s3 = engineCall (ApplySplit split)
                                   (pushContext (engineCall PreContextPushHook s2))
                        in Inr (s3\<lparr>stack := butlast (stack s3) @
                                  [stackEntry\<lparr>impliedValidSplits := [],
                                              activeSplit := split,
                                              alternativeSplits := remaining\<rparr>]\<rparr>)))))"

definition remainingWork :: "SmtCore \<Rightarrow> nat" where
  "remainingWork s = sum_list (map (\<lambda>e. Suc (length (alternativeSplits e))) (stack s))"

lemma remainingWork_butlast:
  "xs \<noteq> [] \<Longrightarrow>
   sum_list (map (\<lambda>e. Suc (length (alternativeSplits e))) (butlast xs))
     + Suc (length (alternativeSplits (last xs)))
   = sum_list (map (\<lambda>e. Suc (length (alternativeSplits e))) xs)"
  by (induction xs) auto

lemma popExhaustedEntries_remainingWork:
  "popExhaustedEntries cfg eng s = Inr (b, s1) \<Longrightarrow> remainingWork s1 \<le> remainingWork s"
proof (induction cfg eng s rule: popExhaustedEntries.induct)
  case (1 cfg eng s)
  let ?s1 = "certificateLeaveChild eng (popContext (s\<lparr>stack := butlast (stack s)\<rparr>))"
  have stk: "stack ?s1 = butlast (stack s)"
    by (auto simp: certificateLeaveChild_def popContext_def engineCall_def split: option.splits)
  show ?case
  proof (cases "stack s = [] \<or> alternativeSplits (last (stack s)) \<noteq> []")
    case True
    with "1.prems" show ?thesis
      by (auto simp: popExhaustedEntries.simps [of cfg eng s] split: if_splits)
  next
    case False
    then have ne: "stack s \<noteq> []" and ex: "alternativeSplits (last (stack s)) = []" by auto
    from "1.prems" ne ex obtain u where u: "throwIfCompliant cfg s = Inr u"
      by (auto simp: popExhaustedEntries.simps [of cfg eng s] split: sum.splits)
    have drop: "remainingWork ?s1 \<le> remainingWork s"
      using remainingWork_butlast [OF ne] by (simp add: remainingWork_def stk)
    show ?thesis
    proof (cases "stack ?s1 = []")
      case True
      with "1.prems" ne ex u have "s1 = ?s1"
        by (simp add: popExhaustedEntries.simps [of cfg eng s] Let_def)
      with drop show ?thesis by simp
    next
      case False
      with "1.prems" ne ex u have "popExhaustedEntries cfg eng ?s1 = Inr (b, s1)"
        by (simp add: popExhaustedEntries.simps [of cfg eng s] Let_def)
      from "1.IH" [OF ne _ u refl False this] ex drop show ?thesis by simp
    qed
  qed
qed

lemma applyAlternativeSplit_remainingWork:
  "applyAlternativeSplit cfg eng s = Inr s2 \<Longrightarrow> remainingWork s2 < remainingWork s"
proof -
  assume a: "applyAlternativeSplit cfg eng s = Inr s2"
  then have ne: "stack s \<noteq> []"
    by (auto simp: applyAlternativeSplit_def split: if_splits)
  from a ne obtain split remaining where
    alt: "alternativeSplits (last (stack s)) = split # remaining"
    by (auto simp: applyAlternativeSplit_def Let_def split: list.splits)
  have cf: "\<And>x y. certificateFindChild cfg eng split x = Inr y \<Longrightarrow> stack y = stack x"
    by (auto simp: certificateFindChild_def ASSERT_def split: option.splits if_splits sum.splits)
  from a ne alt have
    "stack s2 = butlast (stack s) @
       [(last (stack s))\<lparr>impliedValidSplits := [], activeSplit := split,
                         alternativeSplits := remaining\<rparr>]"
    by (auto simp: applyAlternativeSplit_def Let_def ASSERT_def engineCall_def pushContext_def
          popContext_def split: sum.splits if_splits dest!: cf)
  then show ?thesis
    using remainingWork_butlast [OF ne] alt by (simp add: remainingWork_def)
qed

text \<open>The outer loop \<open>while ( inconsistent )\<close>.\<close>

function popSplitLoop ::
  "GlobalConfiguration \<Rightarrow> IEngine \<Rightarrow> SmtCore \<Rightarrow> error + (bool \<times> SmtCore)" where
  "popSplitLoop cfg eng s =
     (case popExhaustedEntries cfg eng s of
        Inl e \<Rightarrow> Inl e
      | Inr (False, s1) \<Rightarrow> Inr (False, s1)
      | Inr (True, s1) \<Rightarrow>
          (case throwIfCompliant cfg s1 of
             Inl e \<Rightarrow> Inl e
           | Inr u \<Rightarrow>
               (case applyAlternativeSplit cfg eng s1 of
                  Inl e \<Rightarrow> Inl e
                | Inr s2 \<Rightarrow>
                    (let inconsistent = \<not> consistentBounds eng (calls s2);
                         s3 = (if shouldProduceProofs eng \<and> inconsistent
                               then engineCall ExplainSimplexFailure s2 else s2)
                     in if inconsistent then popSplitLoop cfg eng s3 else Inr (True, s3)))))"
  by pat_completeness auto
termination
proof (relation "measure (\<lambda>(cfg, eng, s). remainingWork s)")
  show "wf (measure (\<lambda>(cfg, eng, s). remainingWork s))" by simp
next
  fix cfg eng s x2 b s1 u s2 inconsistent and s3 :: SmtCore
  assume "popExhaustedEntries cfg eng s = Inr x2" "(b, s1) = x2"
    and "applyAlternativeSplit cfg eng s1 = Inr s2"
    and "s3 = (if shouldProduceProofs eng \<and> inconsistent
               then engineCall ExplainSimplexFailure s2 else s2)"
  then have "remainingWork s1 \<le> remainingWork s" "remainingWork s2 < remainingWork s1"
    "remainingWork s3 = remainingWork s2"
    by (auto dest: popExhaustedEntries_remainingWork applyAlternativeSplit_remainingWork
          simp: remainingWork_def engineCall_def)
  then show "((cfg, eng, s3), cfg, eng, s) \<in> measure (\<lambda>(cfg, eng, s). remainingWork s)"
    by simp
qed

declare popSplitLoop.simps [simp del]

definition popSplit ::
  "GlobalConfiguration \<Rightarrow> IEngine \<Rightarrow> SmtCore \<Rightarrow> error + (bool \<times> SmtCore)" where
  "popSplit cfg eng s =
     (if stack s = [] then Inr (False, s)
      else (case popSplitLoop cfg eng s of
              Inl e \<Rightarrow> Inl e
            | Inr (False, s1) \<Rightarrow> Inr (False, s1)
            | Inr (True, s1) \<Rightarrow>
                (case statisticsDecisionLevel cfg eng s1 of
                   Inl e \<Rightarrow> Inl e
                 | Inr s2 \<Rightarrow>
                     (case checkSkewFromDebuggingSolution cfg s2 of
                        Inl e \<Rightarrow> Inl e
                      | Inr compliant \<Rightarrow> Inr (True, s2)))))"

section \<open>RowBoundTightener\<close>

subsection \<open>Rows, the tableau and the bounds\<close>

datatype TableauRowEntry = TableauRowEntry (var: nat) (coefficient: real)

record TableauRow =
  scalar :: real
  lhs :: nat
  row :: "TableauRowEntry list"

datatype SparseEntry = SparseEntry (entryIndex: nat) (entryValue: real)

text \<open>
  \<open>ITableau\<close> is not among the sources; the tightener reads it through these accessors.
  Arrays of doubles are functions from the index. A \<open>TableauRow\<close> of this tableau holds
  \<open>n - m\<close> entries (\<open>setDimensions\<close> allocates them so), and the loops
  \<open>for ( i = 0; i < n - m; ++i )\<close> run over these entries.
\<close>

record ITableau =
  getN :: nat
  getM :: nat
  getRightHandSide :: "nat \<Rightarrow> real"
  getInverseBasisMatrix :: "nat \<Rightarrow> real"
  basicIndexToVariable :: "nat \<Rightarrow> nat"
  nonBasicIndexToVariable :: "nat \<Rightarrow> nat"
  getSparseAColumn :: "nat \<Rightarrow> SparseEntry list"
  getSparseARow :: "nat \<Rightarrow> SparseEntry list"
  getAColumn :: "nat \<Rightarrow> nat \<Rightarrow> real"
  forwardTransformation :: "(nat \<Rightarrow> real) \<Rightarrow> nat \<Rightarrow> real"
  getPivotRow :: TableauRow

text \<open>
  The state the tightener works on. \<open>lowerBounds\<close> and \<open>upperBounds\<close> are the bound
  manager's arrays, which the tightener's \<open>_lowerBounds\<close> and \<open>_upperBounds\<close> point
  to, so the assertions that compare the two views before a \<open>throw\<close> cannot fail;
  \<open>rows\<close> is \<open>_rows\<close>. Three fields record what the code does without storing it:
  \<open>registered\<close> lists the arguments of every call of \<open>registerTighterLowerBound\<close> and
  \<open>registerTighterUpperBound\<close> in order, \<open>passesStarted\<close> counts the calls of a
  one-pass routine and \<open>learned\<close> lists what the completed passes returned, and
  \<open>liveInverses\<close> counts the explicit basis inverses that are allocated and not yet
  deleted.
\<close>

record RowBoundTightener =
  lowerBounds :: "nat \<Rightarrow> real"
  upperBounds :: "nat \<Rightarrow> real"
  rows :: "TableauRow list"
  registered :: "Tightening list"
  passesStarted :: nat
  learned :: "u32 list"
  liveInverses :: nat

definition getLowerBound :: "RowBoundTightener \<Rightarrow> nat \<Rightarrow> real" where
  "getLowerBound st v = lowerBounds st v"

definition getUpperBound :: "RowBoundTightener \<Rightarrow> nat \<Rightarrow> real" where
  "getUpperBound st v = upperBounds st v"

text \<open>
  Modelled from the spec: \<open>registerTighterLowerBound\<close> and
  \<open>registerTighterUpperBound\<close> are declared in a header that is not among the sources, and
  they hand the bound to the bound manager. By section 4.A the manager accepts a lower
  bound iff it is strictly greater than the current one, and an upper bound iff it is
  strictly less, compared with \<open>FloatUtils::gt\<close> and \<open>lt\<close>; the result counts the
  accepted bound.
\<close>

definition registerTighterLowerBound ::
  "GlobalConfiguration \<Rightarrow> nat \<Rightarrow> real \<Rightarrow> RowBoundTightener \<Rightarrow> u32 \<times> RowBoundTightener" where
  "registerTighterLowerBound cfg variable newLowerBound st =
     (let st1 = st\<lparr>registered := registered st @ [Tightening variable newLowerBound LB]\<rparr>
      in if gt cfg newLowerBound (lowerBounds st variable)
         then (1, st1\<lparr>lowerBounds := (lowerBounds st)(variable := newLowerBound)\<rparr>)
         else (0, st1))"

definition registerTighterUpperBound ::
  "GlobalConfiguration \<Rightarrow> nat \<Rightarrow> real \<Rightarrow> RowBoundTightener \<Rightarrow> u32 \<times> RowBoundTightener" where
  "registerTighterUpperBound cfg variable newUpperBound st =
     (let st1 = st\<lparr>registered := registered st @ [Tightening variable newUpperBound UB]\<rparr>
      in if lt cfg newUpperBound (upperBounds st variable)
         then (1, st1\<lparr>upperBounds := (upperBounds st)(variable := newUpperBound)\<rparr>)
         else (0, st1))"

subsection \<open>Tightening on a row of the inverted basis\<close>

datatype Sign = ZERO | POSITIVE | NEGATIVE

text \<open>One cell of each of the scratch arrays \<open>_ciSign\<close>, \<open>_ciTimesLb\<close>, \<open>_ciTimesUb\<close>.\<close>

record CiCell =
  ciSign :: Sign
  ciTimesLb :: real
  ciTimesUb :: real

text \<open>The first loop: the cells of the entry at position \<open>i\<close>.\<close>

definition invertedBasisCell ::
  "GlobalConfiguration \<Rightarrow> RowBoundTightener \<Rightarrow> TableauRowEntry \<Rightarrow> CiCell" where
  "invertedBasisCell cfg st entry =
     (let ci = coefficient entry
      in if isZero cfg ci then \<lparr>ciSign = ZERO, ciTimesLb = 0, ciTimesUb = 0\<rparr>
         else \<lparr>ciSign = (if isPositive cfg ci then POSITIVE else NEGATIVE),
               ciTimesLb = ci * getLowerBound st (var entry),
               ciTimesUb = ci * getUpperBound st (var entry)\<rparr>)"

text \<open>The body of the pass for \<open>y\<close>, on the pair \<open>(lowerBound, upperBound)\<close>.\<close>

definition accumulateForY :: "real \<times> real \<Rightarrow> CiCell \<Rightarrow> real \<times> real" where
  "accumulateForY bounds cell =
     (case bounds of (lowerBound, upperBound) \<Rightarrow>
        if ciSign cell = POSITIVE
        then (lowerBound + ciTimesLb cell, upperBound + ciTimesUb cell)
        else (lowerBound + ciTimesUb cell, upperBound + ciTimesLb cell))"

text \<open>The body of the loop "Now add ALL xi's", on the pair \<open>(auxLb, auxUb)\<close>.\<close>

definition subtractFromAux :: "real \<times> real \<Rightarrow> CiCell \<Rightarrow> real \<times> real" where
  "subtractFromAux aux cell =
     (case aux of (auxLb, auxUb) \<Rightarrow>
        if ciSign cell = NEGATIVE
        then (auxLb - ciTimesLb cell, auxUb - ciTimesUb cell)
        else (auxLb - ciTimesUb cell, auxUb - ciTimesLb cell))"

text \<open>
  "Adjust the aux bounds to remove xi", the division by \<open>ci\<close> and the swap for a negative
  coefficient: the pair \<open>(lowerBound, upperBound)\<close> derived for the entry.
\<close>

definition deriveForEntry :: "real \<Rightarrow> real \<Rightarrow> CiCell \<Rightarrow> real \<Rightarrow> real \<times> real" where
  "deriveForEntry auxLb auxUb cell ci =
     (let lowerBound = (if ciSign cell = NEGATIVE then auxLb + ciTimesLb cell
                        else auxLb + ciTimesUb cell);
          upperBound = (if ciSign cell = NEGATIVE then auxUb + ciTimesUb cell
                        else auxUb + ciTimesLb cell);
          lowerBound = lowerBound / ci;
          upperBound = upperBound / ci
      in if ciSign cell = NEGATIVE then (upperBound, lowerBound) else (lowerBound, upperBound))"

text \<open>The last loop, "Now consider each individual xi".\<close>

fun tightenInvertedBasisEntries ::
  "GlobalConfiguration \<Rightarrow> real \<Rightarrow> real \<Rightarrow> (TableauRowEntry \<times> CiCell) list \<Rightarrow> u32
    \<Rightarrow> RowBoundTightener \<Rightarrow> (error + u32) \<times> RowBoundTightener" where
  "tightenInvertedBasisEntries cfg auxLb auxUb [] result st = (Inr result, st)"
| "tightenInvertedBasisEntries cfg auxLb auxUb ((entry, cell) # rest) result st =
     (if ciSign cell = ZERO \<or>
         lt cfg \<bar>coefficient entry\<bar> (MINIMAL_COEFFICIENT_FOR_TIGHTENING cfg)
      then tightenInvertedBasisEntries cfg auxLb auxUb rest result st
      else
        (case deriveForEntry auxLb auxUb cell (coefficient entry) of
           (lowerBound, upperBound) \<Rightarrow>
             (let xi = var entry
              in case registerTighterLowerBound cfg xi
                        (lowerBound - EXPLICIT_BASIS_BOUND_TIGHTENING_ROUNDING_CONSTANT cfg) st of
                   (learnedLower, st1) \<Rightarrow>
                     (case registerTighterUpperBound cfg xi
                             (upperBound + EXPLICIT_BASIS_BOUND_TIGHTENING_ROUNDING_CONSTANT cfg) st1 of
                        (learnedUpper, st2) \<Rightarrow>
                          if gt cfg (getLowerBound st2 xi) (getUpperBound st2 xi)
                          then (Inl InfeasibleQueryException, st2)
                          else tightenInvertedBasisEntries cfg auxLb auxUb rest
                                 (result + learnedLower + learnedUpper) st2))))"

definition tightenOnSingleInvertedBasisRow ::
  "GlobalConfiguration \<Rightarrow> TableauRow \<Rightarrow> RowBoundTightener \<Rightarrow> (error + u32) \<times> RowBoundTightener" where
  "tightenOnSingleInvertedBasisRow cfg r st =
     (let cells = map (invertedBasisCell cfg st) (row r);
          y = lhs r
      in case foldl accumulateForY (scalar r, scalar r) cells of
           (lowerBound, upperBound) \<Rightarrow>
             (case registerTighterLowerBound cfg y
                     (lowerBound - EXPLICIT_BASIS_BOUND_TIGHTENING_ROUNDING_CONSTANT cfg) st of
                (learnedLower, st1) \<Rightarrow>
                  (case registerTighterUpperBound cfg y
                          (upperBound + EXPLICIT_BASIS_BOUND_TIGHTENING_ROUNDING_CONSTANT cfg) st1 of
                     (learnedUpper, st2) \<Rightarrow>
                       if gt cfg (getLowerBound st2 y) (getUpperBound st2 y)
                       then (Inl InfeasibleQueryException, st2)
                       else
                         (case foldl subtractFromAux
                                 (getLowerBound st2 y - scalar r, getUpperBound st2 y - scalar r)
                                 cells of
                            (auxLb, auxUb) \<Rightarrow>
                              tightenInvertedBasisEntries cfg auxLb auxUb (zip (row r) cells)
                                (0 + learnedLower + learnedUpper) st2))))"

text \<open>\<open>onePassOverInvertedBasisRows\<close>: the loop over \<open>_rows\<close>, with \<open>newBounds\<close>.\<close>

fun passOverRows ::
  "GlobalConfiguration \<Rightarrow> TableauRow list \<Rightarrow> u32 \<Rightarrow> RowBoundTightener
    \<Rightarrow> (error + u32) \<times> RowBoundTightener" where
  "passOverRows cfg [] newBounds st = (Inr newBounds, st)"
| "passOverRows cfg (r # rest) newBounds st =
     (case tightenOnSingleInvertedBasisRow cfg r st of
        (Inl e, st1) \<Rightarrow> (Inl e, st1)
      | (Inr k, st1) \<Rightarrow> passOverRows cfg rest (newBounds + k) st1)"

definition onePassOverInvertedBasisRows ::
  "GlobalConfiguration \<Rightarrow> RowBoundTightener \<Rightarrow> (error + u32) \<times> RowBoundTightener" where
  "onePassOverInvertedBasisRows cfg st = passOverRows cfg (rows st) 0 st"

subsection \<open>Tightening on a row of the constraint matrix\<close>

text \<open>
  The scratch arrays after \<open>std::fill_n\<close> and the loop over the sparse row: a function from
  the index to the cell, zero where the row has no entry.
\<close>

definition constraintRowCell ::
  "GlobalConfiguration \<Rightarrow> RowBoundTightener \<Rightarrow> SparseEntry \<Rightarrow> CiCell" where
  "constraintRowCell cfg st entry =
     (let index = entryIndex entry; ci = entryValue entry
      in \<lparr>ciSign = (if isPositive cfg ci then POSITIVE else NEGATIVE),
          ciTimesLb = ci * getLowerBound st index,
          ciTimesUb = ci * getUpperBound st index\<rparr>)"

definition constraintRowCells ::
  "GlobalConfiguration \<Rightarrow> RowBoundTightener \<Rightarrow> SparseEntry list \<Rightarrow> nat \<Rightarrow> CiCell" where
  "constraintRowCells cfg st sparseRow =
     foldl (\<lambda>cells entry. cells(entryIndex entry := constraintRowCell cfg st entry))
       (\<lambda>i. \<lparr>ciSign = ZERO, ciTimesLb = 0, ciTimesUb = 0\<rparr>) sparseRow"

text \<open>The loop "Now consider each individual xi with non zero coefficient".\<close>

fun tightenConstraintEntries ::
  "GlobalConfiguration \<Rightarrow> (nat \<Rightarrow> CiCell) \<Rightarrow> real \<Rightarrow> real \<Rightarrow> SparseEntry list \<Rightarrow> u32
    \<Rightarrow> RowBoundTightener \<Rightarrow> (error + u32) \<times> RowBoundTightener" where
  "tightenConstraintEntries cfg cells auxLb auxUb [] result st = (Inr result, st)"
| "tightenConstraintEntries cfg cells auxLb auxUb (entry # rest) result st =
     (let index = entryIndex entry; ci = entryValue entry
      in if lt cfg \<bar>ci\<bar> (MINIMAL_COEFFICIENT_FOR_TIGHTENING cfg)
         then tightenConstraintEntries cfg cells auxLb auxUb rest result st
         else
           (case deriveForEntry auxLb auxUb (cells index) ci of
              (lowerBound, upperBound) \<Rightarrow>
                (case registerTighterLowerBound cfg index lowerBound st of
                   (learnedLower, st1) \<Rightarrow>
                     (case registerTighterUpperBound cfg index upperBound st1 of
                        (learnedUpper, st2) \<Rightarrow>
                          if gt cfg (getLowerBound st2 index) (getUpperBound st2 index)
                          then (Inl InfeasibleQueryException, st2)
                          else tightenConstraintEntries cfg cells auxLb auxUb rest
                                 (result + learnedLower + learnedUpper) st2))))"

definition tightenOnSingleConstraintRow ::
  "GlobalConfiguration \<Rightarrow> ITableau \<Rightarrow> nat \<Rightarrow> RowBoundTightener
    \<Rightarrow> (error + u32) \<times> RowBoundTightener" where
  "tightenOnSingleConstraintRow cfg tableau r st =
     (let n = getN tableau;
          sparseRow = getSparseARow tableau r;
          b = getRightHandSide tableau;
          cells = constraintRowCells cfg st sparseRow
      in case foldl subtractFromAux (b r, b r) (map cells [0..<n]) of
           (auxLb, auxUb) \<Rightarrow> tightenConstraintEntries cfg cells auxLb auxUb sparseRow 0 st)"

text \<open>\<open>onePassOverConstraintMatrix\<close>: the loop over the row numbers below \<open>m\<close>.\<close>

fun passOverConstraintRows ::
  "GlobalConfiguration \<Rightarrow> ITableau \<Rightarrow> nat list \<Rightarrow> u32 \<Rightarrow> RowBoundTightener
    \<Rightarrow> (error + u32) \<times> RowBoundTightener" where
  "passOverConstraintRows cfg tableau [] result st = (Inr result, st)"
| "passOverConstraintRows cfg tableau (i # rest) result st =
     (case tightenOnSingleConstraintRow cfg tableau i st of
        (Inl e, st1) \<Rightarrow> (Inl e, st1)
      | (Inr k, st1) \<Rightarrow> passOverConstraintRows cfg tableau rest (result + k) st1)"

definition onePassOverConstraintMatrix ::
  "GlobalConfiguration \<Rightarrow> ITableau \<Rightarrow> RowBoundTightener \<Rightarrow> (error + u32) \<times> RowBoundTightener" where
  "onePassOverConstraintMatrix cfg tableau st =
     passOverConstraintRows cfg tableau [0..<getM tableau] 0 st"

subsection \<open>The examine routines\<close>

text \<open>
  The three examine routines end in the same loop,
  \<open>do { newBoundsLearned = onePass...(); --maxNumberOfIterations; }
     while ( ( maxNumberOfIterations != 0 ) && ( newBoundsLearned > 0 ) )\<close>,
  which is written once here, over the one-pass routine. The statistics counter it feeds is
  left out. An exception of the pass leaves the loop with the bounds as they are.
\<close>

function saturationLoop ::
  "(RowBoundTightener \<Rightarrow> (error + u32) \<times> RowBoundTightener) \<Rightarrow> u32 \<Rightarrow> RowBoundTightener
    \<Rightarrow> (error + unit) \<times> RowBoundTightener" where
  "saturationLoop onePass maxNumberOfIterations st =
     (case onePass (st\<lparr>passesStarted := passesStarted st + 1\<rparr>) of
        (Inl e, st1) \<Rightarrow> (Inl e, st1)
      | (Inr newBoundsLearned, st1) \<Rightarrow>
          (let st2 = st1\<lparr>learned := learned st1 @ [newBoundsLearned]\<rparr>;
               remaining = maxNumberOfIterations - 1
           in if remaining \<noteq> 0 \<and> 0 < newBoundsLearned
              then saturationLoop onePass remaining st2
              else (Inr (), st2)))"
  by pat_completeness auto
termination
proof (relation "measure (\<lambda>(onePass, maxNumberOfIterations, st). unat (maxNumberOfIterations - 1))")
  show "wf (measure (\<lambda>(onePass, maxNumberOfIterations, st :: RowBoundTightener).
              unat ((maxNumberOfIterations :: u32) - 1)))"
    by simp
next
  fix onePass :: "RowBoundTightener \<Rightarrow> (error + u32) \<times> RowBoundTightener"
    and maxNumberOfIterations remaining newBoundsLearned :: u32
    and st st2 :: RowBoundTightener
  assume a: "remaining = maxNumberOfIterations - 1" "remaining \<noteq> 0 \<and> 0 < newBoundsLearned"
  have pred: "\<And>w :: u32. w \<noteq> 0 \<Longrightarrow> unat (w - 1) < unat w"
    by (simp add: unat_minus_one unat_gt_0)
  from a have "remaining \<noteq> 0" by blast
  from pred [OF this] a(1) have "unat (remaining - 1) < unat (maxNumberOfIterations - 1)"
    by blast
  then show "((onePass, remaining, st2), onePass, maxNumberOfIterations, st)
      \<in> measure (\<lambda>(onePass, maxNumberOfIterations, st). unat (maxNumberOfIterations - 1))"
    by simp
qed

declare saturationLoop.simps [simp del]

definition maxNumberOfIterations :: "GlobalConfiguration \<Rightarrow> bool \<Rightarrow> u32" where
  "maxNumberOfIterations cfg untilSaturation =
     (if untilSaturation then ROW_BOUND_TIGHTENER_SATURATION_ITERATIONS cfg else 1)"

definition examineConstraintMatrix ::
  "GlobalConfiguration \<Rightarrow> ITableau \<Rightarrow> bool \<Rightarrow> RowBoundTightener
    \<Rightarrow> (error + unit) \<times> RowBoundTightener" where
  "examineConstraintMatrix cfg tableau untilSaturation st =
     saturationLoop (onePassOverConstraintMatrix cfg tableau)
       (maxNumberOfIterations cfg untilSaturation) st"

text \<open>
  The rows of the implicit variant: \<open>z\<close> from the forward transformation of the right-hand
  side gives the scalars, and the forward transformation of each non-basic column gives
  one coefficient of every row.
\<close>

definition implicitInvertedBasisRows :: "ITableau \<Rightarrow> TableauRow list" where
  "implicitInvertedBasisRows tableau =
     map (\<lambda>j. \<lparr>scalar = forwardTransformation tableau (getRightHandSide tableau) j,
               lhs = basicIndexToVariable tableau j,
               row = map (\<lambda>i. let nonBasic = nonBasicIndexToVariable tableau i
                               in TableauRowEntry nonBasic
                                    (- forwardTransformation tableau (getAColumn tableau nonBasic) j))
                       [0..<getN tableau - getM tableau]\<rparr>)
       [0..<getM tableau]"

definition examineImplicitInvertedBasisMatrix ::
  "GlobalConfiguration \<Rightarrow> ITableau \<Rightarrow> bool \<Rightarrow> RowBoundTightener
    \<Rightarrow> (error + unit) \<times> RowBoundTightener" where
  "examineImplicitInvertedBasisMatrix cfg tableau untilSaturation st =
     saturationLoop (onePassOverInvertedBasisRows cfg)
       (maxNumberOfIterations cfg untilSaturation)
       (st\<lparr>rows := implicitInvertedBasisRows tableau\<rparr>)"

text \<open>
  The rows of the explicit variant, one at a time from \<open>invB\<close>: the scalar is the dot
  product of row \<open>i\<close> of \<open>invB\<close> with \<open>b\<close>, a coefficient is minus the dot product of
  that row with a sparse column of \<open>A\<close>.
\<close>

definition explicitInvertedBasisRows :: "ITableau \<Rightarrow> (nat \<Rightarrow> real) \<Rightarrow> TableauRow list" where
  "explicitInvertedBasisRows tableau invB =
     (let m = getM tableau; b = getRightHandSide tableau
      in map (\<lambda>i. \<lparr>scalar = foldl (\<lambda>acc j. acc + invB (i * m + j) * b j) 0 [0..<m],
                  lhs = basicIndexToVariable tableau i,
                  row = map (\<lambda>j. let v = nonBasicIndexToVariable tableau j
                                  in TableauRowEntry v
                                       (foldl (\<lambda>acc entry.
                                                 acc - invB (i * m + entryIndex entry) * entryValue entry)
                                          0 (getSparseAColumn tableau v)))
                          [0..<getN tableau - m]\<rparr>)
           [0..<m])"

text \<open>
  \<open>getInverseBasisMatrix\<close> hands over a freshly allocated array; both the \<open>catch\<close> block
  and the normal exit delete it, and the \<open>catch\<close> block throws the exception again.
\<close>

definition examineInvertedBasisMatrix ::
  "GlobalConfiguration \<Rightarrow> ITableau \<Rightarrow> bool \<Rightarrow> RowBoundTightener
    \<Rightarrow> (error + unit) \<times> RowBoundTightener" where
  "examineInvertedBasisMatrix cfg tableau untilSaturation st =
     (let invB = getInverseBasisMatrix tableau;
          st1 = st\<lparr>liveInverses := liveInverses st + 1\<rparr>;
          st2 = st1\<lparr>rows := explicitInvertedBasisRows tableau invB\<rparr>
      in case saturationLoop (onePassOverInvertedBasisRows cfg)
                (maxNumberOfIterations cfg untilSaturation) st2 of
           (Inl e, st3) \<Rightarrow> (Inl e, st3\<lparr>liveInverses := liveInverses st3 - 1\<rparr>)
         | (Inr u, st3) \<Rightarrow> (Inr u, st3\<lparr>liveInverses := liveInverses st3 - 1\<rparr>))"

definition examinePivotRow ::
  "GlobalConfiguration \<Rightarrow> ITableau \<Rightarrow> RowBoundTightener \<Rightarrow> (error + unit) \<times> RowBoundTightener" where
  "examinePivotRow cfg tableau st =
     (case tightenOnSingleInvertedBasisRow cfg (getPivotRow tableau) st of
        (Inl e, st1) \<Rightarrow> (Inl e, st1)
      | (Inr newBoundsLearned, st1) \<Rightarrow> (Inr (), st1))"

section \<open>Notions used to state the properties of the decision stack\<close>

text \<open>The case splits a trace applies to the engine, in order.\<close>

fun appliedSplits :: "Call list \<Rightarrow> PiecewiseLinearCaseSplit list" where
  "appliedSplits [] = []"
| "appliedSplits (ApplySplit split # cs) = split # appliedSplits cs"
| "appliedSplits (c # cs) = appliedSplits cs"

text \<open>
  Every application of a split in the new part of a trace left the engine with inconsistent
  bounds; in \<open>rejectedBeforeLast\<close> an application that ends the trace is exempt.
\<close>

definition rejectedIn :: "IEngine \<Rightarrow> Call list \<Rightarrow> Call list \<Rightarrow> bool" where
  "rejectedIn eng before new =
     (\<forall>p split q. new = p @ ApplySplit split # q \<longrightarrow>
        \<not> consistentBounds eng (before @ p @ [ApplySplit split]))"

definition rejectedBeforeLast :: "IEngine \<Rightarrow> Call list \<Rightarrow> Call list \<Rightarrow> bool" where
  "rejectedBeforeLast eng before new =
     (\<forall>p split q. new = p @ ApplySplit split # q \<and> q \<noteq> [] \<longrightarrow>
        \<not> consistentBounds eng (before @ p @ [ApplySplit split]))"

text \<open>
  The six calls that advance a frame to its next alternative: the context is popped, the
  engine restores the frame's snapshot, and the alternative is applied under a fresh
  context level.
\<close>

definition applicationBlock :: "u32 \<Rightarrow> PiecewiseLinearCaseSplit \<Rightarrow> Call list" where
  "applicationBlock snapshot split =
     [ContextPop, PostContextPopHook, RestoreState snapshot, PreContextPushHook, ContextPush,
      ApplySplit split]"

text \<open>
  \<open>advancedTo\<close>: the frames \<open>removed\<close> above the frame \<open>e0\<close> are gone, the frames
  below it are untouched, and \<open>e0\<close> has moved to the alternative \<open>a\<close>, with its implied
  splits cleared and the alternatives after \<open>a\<close> left. The splits applied on the way are all
  the alternatives of the removed frames, newest frame first, then the alternatives of
  \<open>e0\<close> up to \<open>a\<close>; the trace ends with the application of \<open>a\<close>, after which the
  engine's bounds are consistent; the context level has dropped by one for each removed
  frame.
\<close>

definition advancedTo ::
  "IEngine \<Rightarrow> SmtCore \<Rightarrow> SmtCore \<Rightarrow> Call list \<Rightarrow> bool" where
  "advancedTo eng s s' new =
     (\<exists>below e0 removed tried a rest before.
        stack s = below @ e0 # removed \<and>
        alternativeSplits e0 = tried @ a # rest \<and>
        stack s' = below @ [e0\<lparr>impliedValidSplits := [], activeSplit := a,
                                alternativeSplits := rest\<rparr>] \<and>
        appliedSplits new = concat (map alternativeSplits (rev removed)) @ tried @ [a] \<and>
        new = before @ applicationBlock (engineState e0) a \<and>
        consistentBounds eng (calls s') \<and>
        contextLevel s' = contextLevel s - int (length removed))"

text \<open>
  \<open>exhaustedAll\<close>: no frame is left, every alternative of every frame was applied,
  newest frame first, and the context level has dropped by one for each frame.
\<close>

definition exhaustedAll :: "SmtCore \<Rightarrow> SmtCore \<Rightarrow> Call list \<Rightarrow> bool" where
  "exhaustedAll s s' new =
     (stack s' = [] \<and>
      appliedSplits new = concat (map alternativeSplits (rev (stack s))) \<and>
      contextLevel s' = contextLevel s - int (length (stack s)))"

text \<open>The assertion of \<open>getStackDepth\<close>, without the cast to \<open>unsigned\<close>.\<close>

definition depthMatchesLevel :: "SmtCore \<Rightarrow> bool" where
  "depthMatchesLevel s = (int (length (stack s)) = contextLevel s)"



section \<open>Notions used to state the properties of the tightener\<close>

text \<open>
  \<open>sameBookkeeping\<close>: a step leaves the pass counter, the list of learned counts, the
  count of live inverses and the rows alone.
\<close>

definition sameBookkeeping :: "RowBoundTightener \<Rightarrow> RowBoundTightener \<Rightarrow> bool" where
  "sameBookkeeping st st' =
     (passesStarted st' = passesStarted st \<and> learned st' = learned st \<and>
      liveInverses st' = liveInverses st \<and> rows st' = rows st)"

text \<open>
  A lower bound exceeds an upper bound when \<open>FloatUtils::gt\<close> says so, which is the test
  the code applies. \<open>noNewCrossing\<close>: a variable whose bounds cross at the end has the
  bounds it started with, so no bound registered on the way made a variable cross.
  \<open>crossingReported\<close>: a normal return has made no variable cross, and the only
  exception is \<open>InfeasibleQueryException\<close>, raised with a crossing variable in the
  bounds it leaves behind.
\<close>

definition noNewCrossing ::
  "GlobalConfiguration \<Rightarrow> RowBoundTightener \<Rightarrow> RowBoundTightener \<Rightarrow> bool" where
  "noNewCrossing cfg st st' =
     (\<forall>v. gt cfg (lowerBounds st' v) (upperBounds st' v) \<longrightarrow>
          lowerBounds st' v = lowerBounds st v \<and> upperBounds st' v = upperBounds st v)"

definition crossingReported ::
  "GlobalConfiguration \<Rightarrow> RowBoundTightener \<Rightarrow> (error + 'a) \<times> RowBoundTightener \<Rightarrow> bool" where
  "crossingReported cfg st out =
     (case out of (res, st') \<Rightarrow>
        (case res of
           Inr x \<Rightarrow> noNewCrossing cfg st st'
         | Inl e \<Rightarrow> e = InfeasibleQueryException \<and>
                    (\<exists>v. gt cfg (lowerBounds st' v) (upperBounds st' v))))"

text \<open>
  The entries that are not skipped: in the inverted-basis pass those that are not zero for
  \<open>isZero\<close> and not below the threshold for \<open>FloatUtils::lt\<close>, in the
  constraint-matrix pass those that are not below the threshold for \<open>FloatUtils::lt\<close>.
\<close>

definition keptInvertedBasisEntry ::
  "GlobalConfiguration \<Rightarrow> TableauRowEntry \<Rightarrow> bool" where
  "keptInvertedBasisEntry cfg entry =
     (\<not> isZero cfg (coefficient entry) \<and>
      \<not> lt cfg \<bar>coefficient entry\<bar> (MINIMAL_COEFFICIENT_FOR_TIGHTENING cfg))"

definition keptConstraintEntry :: "GlobalConfiguration \<Rightarrow> SparseEntry \<Rightarrow> bool" where
  "keptConstraintEntry cfg entry =
     (\<not> lt cfg \<bar>entryValue entry\<bar> (MINIMAL_COEFFICIENT_FOR_TIGHTENING cfg))"

definition keptCell :: "GlobalConfiguration \<Rightarrow> TableauRowEntry \<times> CiCell \<Rightarrow> bool" where
  "keptCell cfg p =
     (case p of (entry, cell) \<Rightarrow>
        \<not> (ciSign cell = ZERO \<or>
           lt cfg \<bar>coefficient entry\<bar> (MINIMAL_COEFFICIENT_FOR_TIGHTENING cfg)))"

text \<open>The two calls that the loops make for one entry, from the scratch cells.\<close>

definition invertedBasisRequest ::
  "GlobalConfiguration \<Rightarrow> real \<Rightarrow> real \<Rightarrow> TableauRowEntry \<times> CiCell \<Rightarrow> Tightening list" where
  "invertedBasisRequest cfg auxLb auxUb p =
     (case p of (entry, cell) \<Rightarrow>
        (case deriveForEntry auxLb auxUb cell (coefficient entry) of
           (lowerBound, upperBound) \<Rightarrow>
             [Tightening (var entry)
                (lowerBound - EXPLICIT_BASIS_BOUND_TIGHTENING_ROUNDING_CONSTANT cfg) LB,
              Tightening (var entry)
                (upperBound + EXPLICIT_BASIS_BOUND_TIGHTENING_ROUNDING_CONSTANT cfg) UB]))"

definition constraintRequest ::
  "(nat \<Rightarrow> CiCell) \<Rightarrow> real \<Rightarrow> real \<Rightarrow> SparseEntry \<Rightarrow> Tightening list" where
  "constraintRequest cells auxLb auxUb entry =
     (case deriveForEntry auxLb auxUb (cells (entryIndex entry)) (entryValue entry) of
        (lowerBound, upperBound) \<Rightarrow>
          [Tightening (entryIndex entry) lowerBound LB,
           Tightening (entryIndex entry) upperBound UB])"

text \<open>
  A run of the saturation loop with the cap \<open>cap\<close>. \<open>new\<close> lists what the completed
  passes learned; every pass before the last completed one learned a bound. On a normal
  return the run made as many passes as it completed, at least one and at most \<open>cap\<close>,
  and it ended because the last pass learned nothing or because the cap was reached. On an
  exception the pass that raised it was one more pass, still within the cap, and every
  completed pass had learned a bound.
\<close>

definition saturationRun ::
  "u32 \<Rightarrow> RowBoundTightener \<Rightarrow> (error + unit) \<times> RowBoundTightener \<Rightarrow> bool" where
  "saturationRun cap st out =
     (case out of (res, st') \<Rightarrow>
        \<exists>new. learned st' = learned st @ new \<and> (\<forall>x \<in> set (butlast new). 0 < x) \<and>
          (case res of
             Inr u \<Rightarrow> passesStarted st' = passesStarted st + length new \<and> new \<noteq> [] \<and>
                      length new \<le> unat cap \<and> (last new = 0 \<or> length new = unat cap)
           | Inl e \<Rightarrow> passesStarted st' = passesStarted st + length new + 1 \<and>
                      length new + 1 \<le> unat cap \<and> (\<forall>x \<in> set new. 0 < x)))"

text \<open>
  The bounds of a row \<open>y = sum ci xi + b\<close> of the inverted basis, written as the spec
  has them. \<open>termLower\<close> and \<open>termUpper\<close> are the least and greatest value of one
  product \<open>ci xi\<close> under the bounds at the start of the row; a coefficient that is zero
  for \<open>isZero\<close> contributes nothing. The derived bounds of \<open>y\<close> add all of them to
  the scalar.
\<close>

definition termLower :: "GlobalConfiguration \<Rightarrow> RowBoundTightener \<Rightarrow> TableauRowEntry \<Rightarrow> real" where
  "termLower cfg st entry =
     (let c = coefficient entry
      in if isZero cfg c then 0
         else if isPositive cfg c then c * lowerBounds st (var entry)
         else c * upperBounds st (var entry))"

definition termUpper :: "GlobalConfiguration \<Rightarrow> RowBoundTightener \<Rightarrow> TableauRowEntry \<Rightarrow> real" where
  "termUpper cfg st entry =
     (let c = coefficient entry
      in if isZero cfg c then 0
         else if isPositive cfg c then c * upperBounds st (var entry)
         else c * lowerBounds st (var entry))"

definition derivedLowerForY :: "GlobalConfiguration \<Rightarrow> RowBoundTightener \<Rightarrow> TableauRow \<Rightarrow> real" where
  "derivedLowerForY cfg st r = scalar r + sum_list (map (termLower cfg st) (row r))"

definition derivedUpperForY :: "GlobalConfiguration \<Rightarrow> RowBoundTightener \<Rightarrow> TableauRow \<Rightarrow> real" where
  "derivedUpperForY cfg st r = scalar r + sum_list (map (termUpper cfg st) (row r))"

definition requestsForY ::
  "GlobalConfiguration \<Rightarrow> RowBoundTightener \<Rightarrow> TableauRow \<Rightarrow> Tightening list" where
  "requestsForY cfg st r =
     [Tightening (lhs r)
        (derivedLowerForY cfg st r - EXPLICIT_BASIS_BOUND_TIGHTENING_ROUNDING_CONSTANT cfg) LB,
      Tightening (lhs r)
        (derivedUpperForY cfg st r + EXPLICIT_BASIS_BOUND_TIGHTENING_ROUNDING_CONSTANT cfg) UB]"

text \<open>
  The bounds of \<open>y\<close> after its two derived bounds were registered, and the bounds derived
  for \<open>xi = 1/ci * ( y - sum cj xj - b )\<close>, where the sum leaves out \<open>ci xi\<close>
  (written as the sum over all entries minus the entry's own term): the bounds of
  \<open>y\<close> are the current ones, the products use the bounds at the start of the row.
\<close>

definition afterY ::
  "GlobalConfiguration \<Rightarrow> TableauRow \<Rightarrow> RowBoundTightener \<Rightarrow> RowBoundTightener" where
  "afterY cfg r st =
     snd (registerTighterUpperBound cfg (lhs r)
            (derivedUpperForY cfg st r + EXPLICIT_BASIS_BOUND_TIGHTENING_ROUNDING_CONSTANT cfg)
            (snd (registerTighterLowerBound cfg (lhs r)
                    (derivedLowerForY cfg st r - EXPLICIT_BASIS_BOUND_TIGHTENING_ROUNDING_CONSTANT cfg)
                    st)))"

definition derivedForX ::
  "GlobalConfiguration \<Rightarrow> RowBoundTightener \<Rightarrow> TableauRow \<Rightarrow> TableauRowEntry \<Rightarrow> real \<times> real" where
  "derivedForX cfg st r entry =
     (let c = coefficient entry;
          y = lhs r;
          st2 = afterY cfg r st;
          low = lowerBounds st2 y - scalar r -
                  (sum_list (map (termUpper cfg st) (row r)) - termUpper cfg st entry);
          high = upperBounds st2 y - scalar r -
                  (sum_list (map (termLower cfg st) (row r)) - termLower cfg st entry)
      in if isPositive cfg c then (low / c, high / c) else (high / c, low / c))"

definition requestsForX ::
  "GlobalConfiguration \<Rightarrow> RowBoundTightener \<Rightarrow> TableauRow \<Rightarrow> TableauRowEntry \<Rightarrow> Tightening list" where
  "requestsForX cfg st r entry =
     [Tightening (var entry)
        (fst (derivedForX cfg st r entry) - EXPLICIT_BASIS_BOUND_TIGHTENING_ROUNDING_CONSTANT cfg) LB,
      Tightening (var entry)
        (snd (derivedForX cfg st r entry) + EXPLICIT_BASIS_BOUND_TIGHTENING_ROUNDING_CONSTANT cfg) UB]"

text \<open>
  The same for a row \<open>sum ci xi = b\<close> of the constraint matrix, where only the sign of
  the coefficient is tested: \<open>xi = 1/ci * ( b - sum cj xj )\<close>. A row is well formed when
  no variable occurs twice in it and every index is below \<open>n\<close>.
\<close>

definition productLower :: "GlobalConfiguration \<Rightarrow> RowBoundTightener \<Rightarrow> SparseEntry \<Rightarrow> real" where
  "productLower cfg st entry =
     (let c = entryValue entry
      in if isPositive cfg c then c * lowerBounds st (entryIndex entry)
         else c * upperBounds st (entryIndex entry))"

definition productUpper :: "GlobalConfiguration \<Rightarrow> RowBoundTightener \<Rightarrow> SparseEntry \<Rightarrow> real" where
  "productUpper cfg st entry =
     (let c = entryValue entry
      in if isPositive cfg c then c * upperBounds st (entryIndex entry)
         else c * lowerBounds st (entryIndex entry))"

definition derivedForConstraintEntry ::
  "GlobalConfiguration \<Rightarrow> ITableau \<Rightarrow> RowBoundTightener \<Rightarrow> nat \<Rightarrow> SparseEntry \<Rightarrow> real \<times> real" where
  "derivedForConstraintEntry cfg tableau st r entry =
     (let c = entryValue entry;
          sparseRow = getSparseARow tableau r;
          b = getRightHandSide tableau r;
          low = b - (sum_list (map (productUpper cfg st) sparseRow) - productUpper cfg st entry);
          high = b - (sum_list (map (productLower cfg st) sparseRow) - productLower cfg st entry)
      in if isPositive cfg c then (low / c, high / c) else (high / c, low / c))"

definition requestsForConstraintEntry ::
  "GlobalConfiguration \<Rightarrow> ITableau \<Rightarrow> RowBoundTightener \<Rightarrow> nat \<Rightarrow> SparseEntry \<Rightarrow> Tightening list" where
  "requestsForConstraintEntry cfg tableau st r entry =
     [Tightening (entryIndex entry) (fst (derivedForConstraintEntry cfg tableau st r entry)) LB,
      Tightening (entryIndex entry) (snd (derivedForConstraintEntry cfg tableau st r entry)) UB]"

definition wellFormedRow :: "ITableau \<Rightarrow> nat \<Rightarrow> bool" where
  "wellFormedRow tableau r =
     (distinct (map entryIndex (getSparseARow tableau r)) \<and>
      (\<forall>entry \<in> set (getSparseARow tableau r). entryIndex entry < getN tableau))"


text \<open>
  The variables for which a run registered bounds, in the order of the calls, and the test
  that the code applies to a variable right after registering its two bounds: the lower
  bound exceeds the upper bound for \<open>FloatUtils::gt\<close>, that is by more than the
  comparison tolerance.
\<close>

definition touchedVariables :: "RowBoundTightener \<Rightarrow> RowBoundTightener \<Rightarrow> nat list" where
  "touchedVariables st st' = map tVariable (drop (length (registered st)) (registered st'))"

definition crosses :: "GlobalConfiguration \<Rightarrow> RowBoundTightener \<Rightarrow> nat \<Rightarrow> bool" where
  "crosses cfg st v = gt cfg (getLowerBound st v) (getUpperBound st v)"

text \<open>
  The variables that a row registers when nothing interrupts it: the basic variable and
  the variables of the kept entries on a row of the inverted basis, the variables of the
  kept entries on a row of the constraint matrix.
\<close>

definition rowVariables :: "GlobalConfiguration \<Rightarrow> TableauRow \<Rightarrow> nat list" where
  "rowVariables cfg r = lhs r # map var (filter (keptInvertedBasisEntry cfg) (row r))"

definition constraintRowVariables :: "GlobalConfiguration \<Rightarrow> ITableau \<Rightarrow> nat \<Rightarrow> nat list" where
  "constraintRowVariables cfg tableau i =
     map entryIndex (filter (keptConstraintEntry cfg) (getSparseARow tableau i))"

text \<open>
  The rule of the bound manager applied to one registered tightening, and to a list of
  them in order. \<open>testedAfterEachPair\<close>: the bounds at the end are the bounds at the
  start with the registered tightenings applied; the tightenings come in pairs, and after
  each pair the variable of the pair crosses exactly if the pair is the last one and the
  routine raised the exception. So the routine raises at the first pair that leaves its
  variable crossing, and at no other point.
\<close>

definition applyTightening ::
  "GlobalConfiguration \<Rightarrow> RowBoundTightener \<Rightarrow> Tightening \<Rightarrow> RowBoundTightener" where
  "applyTightening cfg st t =
     (case tType t of
        LB \<Rightarrow> snd (registerTighterLowerBound cfg (tVariable t) (tValue t) st)
      | UB \<Rightarrow> snd (registerTighterUpperBound cfg (tVariable t) (tValue t) st))"

definition boundsAfter ::
  "GlobalConfiguration \<Rightarrow> RowBoundTightener \<Rightarrow> Tightening list \<Rightarrow> RowBoundTightener" where
  "boundsAfter cfg st ts = foldl (applyTightening cfg) st ts"

definition sameBounds :: "RowBoundTightener \<Rightarrow> RowBoundTightener \<Rightarrow> bool" where
  "sameBounds a b = (lowerBounds a = lowerBounds b \<and> upperBounds a = upperBounds b)"

definition testedAfterEachPair ::
  "GlobalConfiguration \<Rightarrow> RowBoundTightener \<Rightarrow> bool \<Rightarrow> RowBoundTightener \<Rightarrow> Tightening list
    \<Rightarrow> bool" where
  "testedAfterEachPair cfg st raised st' new =
     (sameBounds st' (boundsAfter cfg st new) \<and> even (length new) \<and>
      (\<forall>n. 0 < n \<and> 2 * n \<le> length new \<longrightarrow>
           crosses cfg (boundsAfter cfg st (take (2 * n) new)) (tVariable (new ! (2 * n - 1)))
             = (2 * n = length new \<and> raised)))"

text \<open>
  \<open>checkedRun\<close>: a run that registered the tightenings \<open>new\<close>. The other variables
  keep their bounds, and with a tolerance that is not negative bounds only tighten. A
  normal return leaves no registered variable crossing. An exception is
  \<open>InfeasibleQueryException\<close>, raised right after the last registration: the variable
  of that registration crosses and no other registered variable does.
\<close>

definition checkedRun ::
  "GlobalConfiguration \<Rightarrow> RowBoundTightener \<Rightarrow> error + 'a \<Rightarrow> RowBoundTightener
    \<Rightarrow> Tightening list \<Rightarrow> bool" where
  "checkedRun cfg st res st' new =
     (registered st' = registered st @ new \<and>
      testedAfterEachPair cfg st (res = Inl InfeasibleQueryException) st' new \<and>
      (\<forall>v. v \<notin> tVariable ` set new \<longrightarrow>
           lowerBounds st' v = lowerBounds st v \<and> upperBounds st' v = upperBounds st v) \<and>
      (0 \<le> DEFAULT_EPSILON_FOR_COMPARISONS cfg \<longrightarrow>
         (\<forall>v. lowerBounds st v \<le> lowerBounds st' v \<and> upperBounds st' v \<le> upperBounds st v)) \<and>
      (case res of
         Inr x \<Rightarrow> \<forall>v \<in> tVariable ` set new. \<not> crosses cfg st' v
       | Inl e \<Rightarrow> e = InfeasibleQueryException \<and> new \<noteq> [] \<and>
                  crosses cfg st' (tVariable (last new)) \<and>
                  (\<forall>v \<in> tVariable ` set new. v \<noteq> tVariable (last new) \<longrightarrow> \<not> crosses cfg st' v)))"

text \<open>
  \<open>crossingChecked\<close>: what a routine that has the variables \<open>vars\<close> to register does
  about crossing bounds. The trace of registrations only grows and is tested after each
  pair, the variables without a registration keep their bounds, and bounds only tighten
  when the tolerance is not negative. The routine raises \<open>InfeasibleQueryException\<close> exactly when a registered
  variable crosses at the end, and it does so whenever one of \<open>vars\<close> crosses at entry
  (with a tolerance that is not negative). A normal return has registered all of
  \<open>vars\<close>; an exception is \<open>InfeasibleQueryException\<close> and comes right after the
  registration that made its variable cross, the only registered variable that crosses.
\<close>

definition crossingChecked ::
  "GlobalConfiguration \<Rightarrow> nat list \<Rightarrow> RowBoundTightener \<Rightarrow> (error + 'a) \<times> RowBoundTightener
    \<Rightarrow> bool" where
  "crossingChecked cfg vars st out =
     (case out of (res, st') \<Rightarrow>
        let touched = touchedVariables st st'
        in take (length (registered st)) (registered st') = registered st \<and>
           testedAfterEachPair cfg st (res = Inl InfeasibleQueryException) st'
             (drop (length (registered st)) (registered st')) \<and>
           (\<forall>v. v \<notin> set touched \<longrightarrow>
                lowerBounds st' v = lowerBounds st v \<and> upperBounds st' v = upperBounds st v) \<and>
           (0 \<le> DEFAULT_EPSILON_FOR_COMPARISONS cfg \<longrightarrow>
              (\<forall>v. lowerBounds st v \<le> lowerBounds st' v \<and>
                   upperBounds st' v \<le> upperBounds st v)) \<and>
           (res = Inl InfeasibleQueryException) = (\<exists>v \<in> set touched. crosses cfg st' v) \<and>
           (0 \<le> DEFAULT_EPSILON_FOR_COMPARISONS cfg \<and> (\<exists>v \<in> set vars. crosses cfg st v) \<longrightarrow>
              res = Inl InfeasibleQueryException) \<and>
           (case res of
              Inr x \<Rightarrow> set vars \<subseteq> set touched
            | Inl e \<Rightarrow> e = InfeasibleQueryException \<and> touched \<noteq> [] \<and>
                       crosses cfg st' (last touched) \<and>
                       (\<forall>v \<in> set touched. v \<noteq> last touched \<longrightarrow> \<not> crosses cfg st' v)))"


section \<open>Example data\<close>

text \<open>
  A decision stack without frames that has counted 3, 1 and 5 violations for the
  constraints at the addresses 10, 11 and 12, and a configuration with the values of a
  usual build.
\<close>

definition exampleCore :: SmtCore where
  "exampleCore =
     \<lparr>stack = [], impliedValidSplitsAtRoot = [], needToSplit = False,
      constraintForSplitting = None, stateId = 0,
      constraintToViolationCount = [10 \<mapsto> 3, 11 \<mapsto> 1, 12 \<mapsto> 5],
      constraintViolationThreshold = 20, numRejectedPhasePatternProposal = 0,
      debuggingSolution = [], statistics = False, contextLevel = 0, calls = [],
      constraints = (\<lambda>c. \<lparr>isActive = True, getCaseSplits = []\<rparr>),
      certificateNodes = [], certificateCurrentPointer = None\<rparr>"

definition exampleConfiguration :: "bool \<Rightarrow> GlobalConfiguration" where
  "exampleConfiguration leastFix =
     \<lparr>DEFAULT_EPSILON_FOR_COMPARISONS = 1 / 10 ^ 10,
      MINIMAL_COEFFICIENT_FOR_TIGHTENING = 1 / 100,
      EXPLICIT_BASIS_BOUND_TIGHTENING_ROUNDING_CONSTANT = 1 / 10 ^ 10,
      ROW_BOUND_TIGHTENER_SATURATION_ITERATIONS = 20,
      USE_LEAST_FIX = leastFix,
      assertionsEnabled = True\<rparr>"

text \<open>
  The third scenario of the spec: a constraint with the two cases \<open>x \<ge> 0\<close> and
  \<open>x \<le> 0\<close> is split, and the split is popped. The engine of the example answers every
  consistency query with the same value.
\<close>

definition exampleEngine :: "bool \<Rightarrow> IEngine" where
  "exampleEngine consistent =
     \<lparr>consistentBounds = (\<lambda>trace. consistent), shouldProduceProofs = False,
      inSnCMode = False, pickSplitPLConstraint = (\<lambda>trace. None)\<rparr>"

definition splitLower :: PiecewiseLinearCaseSplit where
  "splitLower = CaseSplit [Tightening 0 0 LB] []"

definition splitUpper :: PiecewiseLinearCaseSplit where
  "splitUpper = CaseSplit [Tightening 0 0 UB] []"

definition exampleReadyCore :: "bool \<Rightarrow> SmtCore" where
  "exampleReadyCore active =
     exampleCore\<lparr>needToSplit := True, constraintForSplitting := Some 10,
       constraints := (\<lambda>c. \<lparr>isActive = active, getCaseSplits = [splitLower, splitUpper]\<rparr>)\<rparr>"

definition exampleSplitCore :: SmtCore where
  "exampleSplitCore =
     exampleCore\<lparr>stack := [\<lparr>activeSplit = splitLower, alternativeSplits = [splitUpper],
                            impliedValidSplits = [], engineState = 0\<rparr>],
       stateId := 1, contextLevel := 1,
       calls := [StoreState 0 STORE_BOUNDS_ONLY, PreContextPushHook, ContextPush,
                 ApplySplit splitLower],
       constraints := (\<lambda>c. \<lparr>isActive = (c \<noteq> 10), getCaseSplits = [splitLower, splitUpper]\<rparr>)\<rparr>"


text \<open>
  A tableau with three variables and the single row \<open>x0 + x1 + x2 = rhs\<close>, whose basic
  variable is \<open>x2\<close>, so that the row of the inverted basis is \<open>x2 = rhs - x0 - x1\<close>;
  the sparse row of the constraint matrix is a parameter. The tightener of the examples
  starts with the same bounds on every variable.
\<close>

definition exampleTightener :: "real \<Rightarrow> real \<Rightarrow> RowBoundTightener" where
  "exampleTightener lo hi =
     \<lparr>lowerBounds = (\<lambda>v. lo), upperBounds = (\<lambda>v. hi), rows = [], registered = [],
      passesStarted = 0, learned = [], liveInverses = 0\<rparr>"

definition exampleTableau :: "SparseEntry list \<Rightarrow> real \<Rightarrow> ITableau" where
  "exampleTableau entries rhs =
     \<lparr>getN = 3, getM = 1,
      getRightHandSide = (\<lambda>i. rhs),
      getInverseBasisMatrix = (\<lambda>i. 1),
      basicIndexToVariable = (\<lambda>i. 2),
      nonBasicIndexToVariable = (\<lambda>i. i),
      getSparseAColumn = (\<lambda>v. [SparseEntry 0 1]),
      getSparseARow = (\<lambda>i. entries),
      getAColumn = (\<lambda>v i. 1),
      forwardTransformation = (\<lambda>column. column),
      getPivotRow = \<lparr>scalar = rhs, lhs = 2,
                      row = [TableauRowEntry 0 (- 1), TableauRowEntry 1 (- 1)]\<rparr>\<rparr>"

definition sumOfThree :: "SparseEntry list" where
  "sumOfThree = [SparseEntry 0 1, SparseEntry 1 1, SparseEntry 2 1]"

text \<open>
  A row with one coefficient below the threshold and one exactly at it, and a row of the
  inverted basis whose only coefficient is below the threshold.
\<close>

definition belowAndAtThreshold :: "SparseEntry list" where
  "belowAndAtThreshold = [SparseEntry 0 (1 / 1000), SparseEntry 1 (1 / 100)]"

definition smallCoefficientRow :: TableauRow where
  "smallCoefficientRow = \<lparr>scalar = 5, lhs = 2, row = [TableauRowEntry 0 (1 / 1000)]\<rparr>"


text \<open>
  The row \<open>x2 = 0.001 x0 + 0.01 x1 + 1\<close> of the inverted basis, with one coefficient
  below the threshold and one exactly at it, and a tightener in which \<open>x2\<close> has the
  lower bound 3 above its upper bound 1 from the start.
\<close>

definition thresholdRow :: TableauRow where
  "thresholdRow =
     \<lparr>scalar = 1, lhs = 2, row = [TableauRowEntry 0 (1 / 1000), TableauRowEntry 1 (1 / 100)]\<rparr>"

definition crossedAtEntry :: RowBoundTightener where
  "crossedAtEntry = (exampleTightener 0 1)\<lparr>lowerBounds := (\<lambda>v. if v = 2 then 3 else 0)\<rparr>"


section \<open>Properties of the decision stack\<close>

subsection \<open>The least-fix heuristic\<close>

lemma leastFixLoop_first_minimum:
  "leastFixLoop s xs candidate (getViolationCounts s candidate) = c \<Longrightarrow>
   (c = candidate \<and> (\<forall>d \<in> set xs. getViolationCounts s candidate \<le> getViolationCounts s d)) \<or>
   (\<exists>pre post. xs = pre @ c # post \<and>
      getViolationCounts s c < getViolationCounts s candidate \<and>
      (\<forall>d \<in> set pre. getViolationCounts s c < getViolationCounts s d) \<and>
      (\<forall>d \<in> set post. getViolationCounts s c \<le> getViolationCounts s d))"
proof (induction xs arbitrary: candidate)
  case Nil
  then show ?case by simp
next
  case (Cons x xs)
  show ?case
  proof (cases "getViolationCounts s x < getViolationCounts s candidate")
    case True
    with Cons.prems have "leastFixLoop s xs x (getViolationCounts s x) = c" by simp
    from Cons.IH [OF this] show ?thesis
    proof (elim disjE conjE exE)
      assume "c = x" "\<forall>d \<in> set xs. getViolationCounts s x \<le> getViolationCounts s d"
      with True have "x # xs = [] @ c # xs \<and>
        getViolationCounts s c < getViolationCounts s candidate \<and>
        (\<forall>d \<in> set []. getViolationCounts s c < getViolationCounts s d) \<and>
        (\<forall>d \<in> set xs. getViolationCounts s c \<le> getViolationCounts s d)" by simp
      then show ?thesis by blast
    next
      fix pre post
      assume h: "xs = pre @ c # post" "getViolationCounts s c < getViolationCounts s x"
        "\<forall>d \<in> set pre. getViolationCounts s c < getViolationCounts s d"
        "\<forall>d \<in> set post. getViolationCounts s c \<le> getViolationCounts s d"
      with True have "x # xs = (x # pre) @ c # post \<and>
        getViolationCounts s c < getViolationCounts s candidate \<and>
        (\<forall>d \<in> set (x # pre). getViolationCounts s c < getViolationCounts s d) \<and>
        (\<forall>d \<in> set post. getViolationCounts s c \<le> getViolationCounts s d)" by auto
      then show ?thesis by blast
    qed
  next
    case False
    with Cons.prems have "leastFixLoop s xs candidate (getViolationCounts s candidate) = c" by simp
    from Cons.IH [OF this] show ?thesis
    proof (elim disjE conjE exE)
      assume "c = candidate" "\<forall>d \<in> set xs. getViolationCounts s candidate \<le> getViolationCounts s d"
      with False show ?thesis by auto
    next
      fix pre post
      assume h: "xs = pre @ c # post" "getViolationCounts s c < getViolationCounts s candidate"
        "\<forall>d \<in> set pre. getViolationCounts s c < getViolationCounts s d"
        "\<forall>d \<in> set post. getViolationCounts s c \<le> getViolationCounts s d"
      with False have "x # xs = (x # pre) @ c # post \<and>
        getViolationCounts s c < getViolationCounts s candidate \<and>
        (\<forall>d \<in> set (x # pre). getViolationCounts s c < getViolationCounts s d) \<and>
        (\<forall>d \<in> set post. getViolationCounts s c \<le> getViolationCounts s d)" by auto
      then show ?thesis by blast
    qed
  qed
qed

text \<open>
  C8. On a non-empty list of violated constraints \<open>chooseViolatedConstraintForFixing\<close>
  returns a constraint of the list. With \<open>USE_LEAST_FIX\<close> it is the one with the fewest
  counted violations, the first of them in list order: every constraint before it has
  strictly more violations and every constraint after it has at least as many. Without
  \<open>USE_LEAST_FIX\<close> it is the first constraint of the list.
\<close>

theorem chooseViolatedConstraintForFixing_least_fix:
  assumes "violated \<noteq> []"
  shows "\<exists>c. chooseViolatedConstraintForFixing cfg s violated = Inr c \<and>
    (if USE_LEAST_FIX cfg
     then (\<exists>pre post. violated = pre @ c # post \<and>
             (\<forall>d \<in> set pre. getViolationCounts s c < getViolationCounts s d) \<and>
             (\<forall>d \<in> set post. getViolationCounts s c \<le> getViolationCounts s d))
     else c = hd violated)"
proof -
  from assms obtain first rest where v: "violated = first # rest" by (cases violated) auto
  show ?thesis
  proof (cases "USE_LEAST_FIX cfg")
    case False
    then show ?thesis by (simp add: chooseViolatedConstraintForFixing_def ASSERT_def v)
  next
    case True
    define c where "c = leastFixLoop s violated first (getViolationCounts s first)"
    have res: "chooseViolatedConstraintForFixing cfg s violated = Inr c"
      using True by (simp add: chooseViolatedConstraintForFixing_def ASSERT_def v c_def)
    from leastFixLoop_first_minimum [OF c_def [symmetric]]
    have "\<exists>pre post. violated = pre @ c # post \<and>
             (\<forall>d \<in> set pre. getViolationCounts s c < getViolationCounts s d) \<and>
             (\<forall>d \<in> set post. getViolationCounts s c \<le> getViolationCounts s d)"
    proof (elim disjE conjE exE)
      assume "c = first" "\<forall>d \<in> set violated. getViolationCounts s first \<le> getViolationCounts s d"
      then have "violated = [] @ c # rest \<and>
             (\<forall>d \<in> set []. getViolationCounts s c < getViolationCounts s d) \<and>
             (\<forall>d \<in> set rest. getViolationCounts s c \<le> getViolationCounts s d)"
        by (simp add: v)
      then show ?thesis by blast
    next
      fix pre post
      assume "violated = pre @ c # post"
        "\<forall>d \<in> set pre. getViolationCounts s c < getViolationCounts s d"
        "\<forall>d \<in> set post. getViolationCounts s c \<le> getViolationCounts s d"
      then show ?thesis by blast
    qed
    with res True show ?thesis by simp
  qed
qed

text \<open>For the counts (3, 1, 5) the heuristic picks the constraint with count 1.\<close>

theorem chooseViolatedConstraintForFixing_least_fix_witness:
  "[10, 11, 12] \<noteq> ([] :: PLConstraint list) \<and>
   chooseViolatedConstraintForFixing (exampleConfiguration True) exampleCore [10, 11, 12] = Inr 11 \<and>
   chooseViolatedConstraintForFixing (exampleConfiguration False) exampleCore [10, 11, 12] = Inr 10"
  using chooseViolatedConstraintForFixing_least_fix
          [of "[10, 11, 12]" "exampleConfiguration True" exampleCore]
  by (simp add: chooseViolatedConstraintForFixing_def ASSERT_def exampleConfiguration_def
        exampleCore_def getViolationCounts_def)

subsection \<open>The splits so far\<close>

text \<open>
  C9. In every state \<open>allSplitsSoFar\<close> is the list of the implied valid splits of the
  root, in order, followed for each frame from the oldest to the newest by its active
  split and then its implied valid splits.
\<close>

theorem allSplitsSoFar_sequence:
  "allSplitsSoFar s =
     impliedValidSplitsAtRoot s @
     concat (map (\<lambda>e. activeSplit e # impliedValidSplits e) (stack s))"
proof -
  have app: "appendAll r xs = r @ xs" for r xs :: "PiecewiseLinearCaseSplit list"
    unfolding appendAll_def by (induction xs arbitrary: r) auto
  have "foldl (\<lambda>result it. appendAll (result @ [activeSplit it]) (impliedValidSplits it)) r es
        = r @ concat (map (\<lambda>e. activeSplit e # impliedValidSplits e) es)"
    for r and es :: "SmtStackEntry list"
    by (induction es arbitrary: r) (auto simp: app)
  then show ?thesis by (simp add: allSplitsSoFar_def app)
qed

subsection \<open>Steps of the decision stack\<close>

lemma engineCall_fields [simp]:
  "stack (engineCall c s) = stack s"
  "contextLevel (engineCall c s) = contextLevel s"
  "calls (engineCall c s) = calls s @ [c]"
  "debuggingSolution (engineCall c s) = debuggingSolution s"
  "statistics (engineCall c s) = statistics s"
  "impliedValidSplitsAtRoot (engineCall c s) = impliedValidSplitsAtRoot s"
  "certificateCurrentPointer (engineCall c s) = certificateCurrentPointer s"
  "certificateNodes (engineCall c s) = certificateNodes s"
  by (simp_all add: engineCall_def)

lemma popContext_fields [simp]:
  "stack (popContext s) = stack s"
  "contextLevel (popContext s) = contextLevel s - 1"
  "calls (popContext s) = calls s @ [ContextPop]"
  "debuggingSolution (popContext s) = debuggingSolution s"
  "statistics (popContext s) = statistics s"
  "impliedValidSplitsAtRoot (popContext s) = impliedValidSplitsAtRoot s"
  "certificateCurrentPointer (popContext s) = certificateCurrentPointer s"
  "certificateNodes (popContext s) = certificateNodes s"
  by (simp_all add: popContext_def)

lemma pushContext_fields [simp]:
  "stack (pushContext s) = stack s"
  "contextLevel (pushContext s) = contextLevel s + 1"
  "calls (pushContext s) = calls s @ [ContextPush]"
  "debuggingSolution (pushContext s) = debuggingSolution s"
  "statistics (pushContext s) = statistics s"
  "impliedValidSplitsAtRoot (pushContext s) = impliedValidSplitsAtRoot s"
  "certificateCurrentPointer (pushContext s) = certificateCurrentPointer s"
  "certificateNodes (pushContext s) = certificateNodes s"
  by (simp_all add: pushContext_def)

lemma certificateLeaveChild_fields [simp]:
  "stack (certificateLeaveChild eng s) = stack s"
  "contextLevel (certificateLeaveChild eng s) = contextLevel s"
  "calls (certificateLeaveChild eng s) = calls s"
  "debuggingSolution (certificateLeaveChild eng s) = debuggingSolution s"
  "statistics (certificateLeaveChild eng s) = statistics s"
  "impliedValidSplitsAtRoot (certificateLeaveChild eng s) = impliedValidSplitsAtRoot s"
  by (simp_all add: certificateLeaveChild_def split: option.splits)

lemma certificateFindChild_fields:
  "certificateFindChild cfg eng split s = Inr s' \<Longrightarrow>
   stack s' = stack s \<and> contextLevel s' = contextLevel s \<and> calls s' = calls s \<and>
   debuggingSolution s' = debuggingSolution s \<and> statistics s' = statistics s \<and>
   impliedValidSplitsAtRoot s' = impliedValidSplitsAtRoot s"
  by (auto simp: certificateFindChild_def ASSERT_def split: option.splits if_splits sum.splits)

lemma certificateAddChildren_fields:
  "certificateAddChildren cfg eng splits s = Inr s' \<Longrightarrow>
   stack s' = stack s \<and> contextLevel s' = contextLevel s \<and> calls s' = calls s \<and>
   debuggingSolution s' = debuggingSolution s \<and> statistics s' = statistics s \<and>
   impliedValidSplitsAtRoot s' = impliedValidSplitsAtRoot s \<and>
   needToSplit s' = needToSplit s \<and> constraintForSplitting s' = constraintForSplitting s \<and>
   constraints s' = constraints s"
  by (auto simp: certificateAddChildren_def split: option.splits if_splits)

lemma certificateEnterChild_fields:
  "certificateEnterChild cfg eng split s = Inr s' \<Longrightarrow>
   stack s' = stack s \<and> contextLevel s' = contextLevel s \<and> calls s' = calls s \<and>
   debuggingSolution s' = debuggingSolution s \<and> statistics s' = statistics s \<and>
   impliedValidSplitsAtRoot s' = impliedValidSplitsAtRoot s \<and>
   needToSplit s' = needToSplit s \<and> constraintForSplitting s' = constraintForSplitting s \<and>
   constraints s' = constraints s"
  by (auto simp: certificateEnterChild_def ASSERT_def split: option.splits if_splits)

lemma statisticsDecisionLevel_same:
  "statisticsDecisionLevel cfg eng s = Inr s' \<Longrightarrow> s' = s"
  by (auto simp: statisticsDecisionLevel_def split: if_splits sum.splits)

text \<open>The inner loop removes exactly a run of exhausted frames from the top.\<close>

lemma popExhaustedEntries_result:
  "popExhaustedEntries cfg eng s = Inr (b, s1) \<Longrightarrow>
   \<exists>removed. stack s = stack s1 @ removed \<and>
     (\<forall>e \<in> set removed. alternativeSplits e = []) \<and>
     contextLevel s1 = contextLevel s - int (length removed) \<and>
     calls s1 = calls s @ replicate (length removed) ContextPop \<and>
     b = (stack s1 \<noteq> []) \<and>
     (b \<longrightarrow> alternativeSplits (last (stack s1)) \<noteq> []) \<and>
     debuggingSolution s1 = debuggingSolution s \<and> statistics s1 = statistics s \<and>
     impliedValidSplitsAtRoot s1 = impliedValidSplitsAtRoot s"
proof (induction cfg eng s rule: popExhaustedEntries.induct)
  case (1 cfg eng s)
  let ?s1 = "certificateLeaveChild eng (popContext (s\<lparr>stack := butlast (stack s)\<rparr>))"
  from "1.prems" have ne: "stack s \<noteq> []"
    by (auto simp: popExhaustedEntries.simps [of cfg eng s] split: if_splits)
  show ?case
  proof (cases "alternativeSplits (last (stack s)) \<noteq> []")
    case True
    with "1.prems" ne have "s1 = s" "b"
      by (auto simp: popExhaustedEntries.simps [of cfg eng s])
    with True ne show ?thesis by auto
  next
    case False
    then have ex: "alternativeSplits (last (stack s)) = []" by simp
    from "1.prems" ne ex obtain u where u: "throwIfCompliant cfg s = Inr u"
      by (auto simp: popExhaustedEntries.simps [of cfg eng s] split: sum.splits)
    have snoc: "stack s = butlast (stack s) @ [last (stack s)]" using ne by simp
    show ?thesis
    proof (cases "stack ?s1 = []")
      case True
      with "1.prems" ne ex u have r: "s1 = ?s1" "\<not> b"
        by (auto simp: popExhaustedEntries.simps [of cfg eng s] Let_def)
      from True have bl: "butlast (stack s) = []" by simp
      with ne obtain e where one: "stack s = [e]"
        by (cases "stack s") (auto split: if_splits)
      have "stack s = stack s1 @ [e] \<and>
        (\<forall>e \<in> set [e]. alternativeSplits e = []) \<and>
        contextLevel s1 = contextLevel s - int (length [e]) \<and>
        calls s1 = calls s @ replicate (length [e]) ContextPop \<and>
        b = (stack s1 \<noteq> []) \<and>
        (b \<longrightarrow> alternativeSplits (last (stack s1)) \<noteq> []) \<and>
        debuggingSolution s1 = debuggingSolution s \<and> statistics s1 = statistics s \<and>
        impliedValidSplitsAtRoot s1 = impliedValidSplitsAtRoot s"
        using r ex one by simp
      then show ?thesis by blast
    next
      case False
      with "1.prems" ne ex u have "popExhaustedEntries cfg eng ?s1 = Inr (b, s1)"
        by (simp add: popExhaustedEntries.simps [of cfg eng s] Let_def)
      from "1.IH" [OF ne _ u refl False this] ex
      obtain removed where ih: "stack ?s1 = stack s1 @ removed"
        "\<forall>e \<in> set removed. alternativeSplits e = []"
        "contextLevel s1 = contextLevel ?s1 - int (length removed)"
        "calls s1 = calls ?s1 @ replicate (length removed) ContextPop"
        "b = (stack s1 \<noteq> [])"
        "b \<longrightarrow> alternativeSplits (last (stack s1)) \<noteq> []"
        "debuggingSolution s1 = debuggingSolution ?s1" "statistics s1 = statistics ?s1"
        "impliedValidSplitsAtRoot s1 = impliedValidSplitsAtRoot ?s1"
        by auto
      have "stack s = stack s1 @ (removed @ [last (stack s)])"
        using snoc ih(1) by simp
      moreover have "\<forall>e \<in> set (removed @ [last (stack s)]). alternativeSplits e = []"
        using ih(2) ex by simp
      moreover have "contextLevel s1 = contextLevel s - int (length (removed @ [last (stack s)]))"
        using ih(3) by simp
      moreover have "calls s1 = calls s @ replicate (length (removed @ [last (stack s)])) ContextPop"
        using ih(4) by (simp add: replicate_append_same)
      ultimately show ?thesis using ih(5-9) by (intro exI [of _ "removed @ [last (stack s)]"]) simp
    qed
  qed
qed

lemma applyAlternativeSplit_result:
  "applyAlternativeSplit cfg eng s = Inr s2 \<Longrightarrow>
   \<exists>split remaining. stack s \<noteq> [] \<and>
     alternativeSplits (last (stack s)) = split # remaining \<and>
     stack s2 = butlast (stack s) @
       [(last (stack s))\<lparr>impliedValidSplits := [], activeSplit := split,
                         alternativeSplits := remaining\<rparr>] \<and>
     contextLevel s2 = contextLevel s \<and>
     calls s2 = calls s @ [ContextPop, PostContextPopHook,
       RestoreState (engineState (last (stack s))), PreContextPushHook, ContextPush,
       ApplySplit split] \<and>
     debuggingSolution s2 = debuggingSolution s \<and> statistics s2 = statistics s \<and>
     impliedValidSplitsAtRoot s2 = impliedValidSplitsAtRoot s"
proof -
  assume a: "applyAlternativeSplit cfg eng s = Inr s2"
  then have ne: "stack s \<noteq> []"
    by (auto simp: applyAlternativeSplit_def split: if_splits)
  from a ne obtain split remaining where
    alt: "alternativeSplits (last (stack s)) = split # remaining"
    by (auto simp: applyAlternativeSplit_def Let_def split: list.splits)
  let ?s1 = "engineCall (RestoreState (engineState (last (stack s))))
                    (engineCall PostContextPopHook (popContext s))"
  from a ne alt obtain sc where sc: "certificateFindChild cfg eng split ?s1 = Inr sc"
    by (auto simp: applyAlternativeSplit_def Let_def split: sum.splits)
  note f = certificateFindChild_fields [OF sc]
  from a ne alt sc have s2: "s2 = (engineCall (ApplySplit split)
                                   (pushContext (engineCall PreContextPushHook sc)))
         \<lparr>stack := butlast (stack (engineCall (ApplySplit split)
                                   (pushContext (engineCall PreContextPushHook sc)))) @
                                  [(last (stack s))\<lparr>impliedValidSplits := [],
                                              activeSplit := split,
                                              alternativeSplits := remaining\<rparr>]\<rparr>"
    by (auto simp: applyAlternativeSplit_def Let_def ASSERT_def split: if_splits)
  show ?thesis
    using ne alt f by (simp add: s2)
qed

lemma performSplit_frames:
  assumes "performSplit cfg eng s = Inr s'"
  shows "(stack s' = stack s \<and> contextLevel s' = contextLevel s \<and> calls s' = calls s) \<or>
         (\<exists>entry. stack s' = stack s @ [entry] \<and> contextLevel s' = contextLevel s + 1)"
proof -
  from assms obtain c where c: "constraintForSplitting s = Some c"
    by (auto simp: performSplit_def ASSERT_def Let_def split: option.splits if_splits)
  show ?thesis
  proof (cases "isActive (constraints s c)")
    case False
    with assms c show ?thesis
      by (auto simp: performSplit_def ASSERT_def Let_def split: if_splits)
  next
    case True
    define splits where "splits = getCaseSplits (constraints s c)"
    define s2 where "s2 = pushContext
       (engineCall PreContextPushHook
         (engineCall (StoreState (stateId s) STORE_BOUNDS_ONLY)
           (s\<lparr>numRejectedPhasePatternProposal := 0, needToSplit := False,
              constraints := (constraints s)(c := (constraints s c)\<lparr>isActive := False\<rparr>),
              stateId := stateId s + 1\<rparr>)))"
    from assms c True obtain s3 where s3: "certificateAddChildren cfg eng splits s2 = Inr s3"
      by (auto simp: performSplit_def ASSERT_def Let_def splits_def s2_def
            split: if_splits sum.splits)
    from assms c True s3 obtain split remaining where sp: "splits = split # remaining"
      by (auto simp: performSplit_def ASSERT_def Let_def splits_def s2_def
            split: if_splits list.splits)
    from assms c True s3 sp obtain s4 where s4: "certificateEnterChild cfg eng split s3 = Inr s4"
      by (auto simp: performSplit_def ASSERT_def Let_def splits_def s2_def
            split: if_splits sum.splits)
    define s5 where "s5 = (engineCall (ApplySplit split) s4)
       \<lparr>stack := stack s4 @ [\<lparr>activeSplit = split, alternativeSplits = remaining,
                               impliedValidSplits = [], engineState = stateId s\<rparr>]\<rparr>"
    from assms c True s3 sp s4 obtain s6 where
      s6: "statisticsDecisionLevel cfg eng s5 = Inr s6" and
      res: "s' = s6\<lparr>constraintForSplitting := None\<rparr>"
      by (auto simp: performSplit_def ASSERT_def Let_def splits_def [symmetric] s2_def [symmetric]
            s5_def split: if_splits sum.splits)
    note f3 = certificateAddChildren_fields [OF s3]
    note f4 = certificateEnterChild_fields [OF s4]
    note f6 = statisticsDecisionLevel_same [OF s6]
    have "stack s' = stack s @ [\<lparr>activeSplit = split, alternativeSplits = remaining,
                               impliedValidSplits = [], engineState = stateId s\<rparr>]"
      "contextLevel s' = contextLevel s + 1"
      using res f6 f4 f3 by (simp_all add: s5_def s2_def)
    then show ?thesis by blast
  qed
qed

subsection \<open>The pop loop\<close>

lemma appliedSplits_append [simp]:
  "appliedSplits (xs @ ys) = appliedSplits xs @ appliedSplits ys"
  by (induction xs rule: appliedSplits.induct) auto

lemma appliedSplits_replicate_pop [simp]: "appliedSplits (replicate n ContextPop) = []"
  by (induction n) auto

lemma exhausted_concat:
  "\<forall>e \<in> set xs. alternativeSplits e = [] \<Longrightarrow> concat (map alternativeSplits (rev xs)) = []"
  by (induction xs) auto

lemma rejected_split:
  assumes u: "\<And>p split q. u = p @ ApplySplit split # q \<Longrightarrow>
                \<not> consistentBounds eng (before @ p @ [ApplySplit split])"
    and v: "\<And>p split q. v = p @ ApplySplit split # q \<Longrightarrow> final \<or> q \<noteq> [] \<Longrightarrow>
                \<not> consistentBounds eng ((before @ u) @ p @ [ApplySplit split])"
    and uv: "u @ v = p @ ApplySplit split # q" and q: "final \<or> q \<noteq> []"
  shows "\<not> consistentBounds eng (before @ p @ [ApplySplit split])"
proof -
  from uv obtain w where
    "(u = p @ w \<and> w @ v = ApplySplit split # q) \<or> (u @ w = p \<and> v = w @ ApplySplit split # q)"
    unfolding append_eq_append_conv2 by blast
  then show ?thesis
  proof
    assume 1: "u = p @ w \<and> w @ v = ApplySplit split # q"
    show ?thesis
    proof (cases w)
      case Nil
      with 1 have "v = [] @ ApplySplit split # q" "u = p" by simp_all
      from v [OF this(1) q] this(2) show ?thesis by simp
    next
      case (Cons c w')
      with 1 have "u = p @ ApplySplit split # w'" by simp
      from u [OF this] show ?thesis .
    qed
  next
    assume 2: "u @ w = p \<and> v = w @ ApplySplit split # q"
    then have "v = w @ ApplySplit split # q" by simp
    from v [OF this q] 2 show ?thesis by auto
  qed
qed

lemma rejectedIn_append:
  "rejectedIn eng before u \<Longrightarrow> rejectedIn eng (before @ u) v \<Longrightarrow> rejectedIn eng before (u @ v)"
  unfolding rejectedIn_def
  using rejected_split [of u eng before v True] by blast

lemma rejectedBeforeLast_append:
  "rejectedIn eng before u \<Longrightarrow> rejectedBeforeLast eng (before @ u) v \<Longrightarrow>
   rejectedBeforeLast eng before (u @ v)"
  unfolding rejectedIn_def rejectedBeforeLast_def
  using rejected_split [of u eng before v False] by blast

lemma rejectedIn_imp_beforeLast:
  "rejectedIn eng before u \<Longrightarrow> rejectedBeforeLast eng before u"
  unfolding rejectedIn_def rejectedBeforeLast_def by blast

lemma rejectedIn_replicate_pop: "rejectedIn eng before (replicate n ContextPop)"
proof -
  have "ApplySplit split \<notin> set (replicate n ContextPop)" for split by auto
  then show ?thesis unfolding rejectedIn_def
    by (metis in_set_conv_decomp)
qed

lemma rejectedIn_block:
  "\<not> consistentBounds eng (before @ [ContextPop, PostContextPopHook, RestoreState i,
       PreContextPushHook, ContextPush, ApplySplit a]) \<Longrightarrow>
   rejectedIn eng before ([ContextPop, PostContextPopHook, RestoreState i,
       PreContextPushHook, ContextPush, ApplySplit a] @ (if ex then [ExplainSimplexFailure] else []))"
  unfolding rejectedIn_def
  by (auto simp: append_eq_Cons_conv Cons_eq_append_conv split: if_splits)

lemma rejectedBeforeLast_block:
  "rejectedBeforeLast eng before [ContextPop, PostContextPopHook, RestoreState i,
       PreContextPushHook, ContextPush, ApplySplit a]"
  unfolding rejectedBeforeLast_def
  by (auto simp: append_eq_Cons_conv Cons_eq_append_conv)

lemma popSplitLoop_result:
  "popSplitLoop cfg eng s = Inr (b, s') \<Longrightarrow>
   \<exists>new. calls s' = calls s @ new \<and> rejectedBeforeLast eng (calls s) new \<and>
     debuggingSolution s' = debuggingSolution s \<and> statistics s' = statistics s \<and>
     impliedValidSplitsAtRoot s' = impliedValidSplitsAtRoot s \<and>
     (if b then advancedTo eng s s' new else exhaustedAll s s' new)"
proof (induction cfg eng s rule: popSplitLoop.induct)
  case (1 cfg eng s)
  from "1.prems" obtain bb s1 where pe: "popExhaustedEntries cfg eng s = Inr (bb, s1)"
    by (auto simp: popSplitLoop.simps [of cfg eng s] split: sum.splits)
  from popExhaustedEntries_result [OF pe] obtain removed1 where r1:
    "stack s = stack s1 @ removed1"
    "\<forall>e \<in> set removed1. alternativeSplits e = []"
    "contextLevel s1 = contextLevel s - int (length removed1)"
    "calls s1 = calls s @ replicate (length removed1) ContextPop"
    "bb = (stack s1 \<noteq> [])"
    "debuggingSolution s1 = debuggingSolution s" "statistics s1 = statistics s"
    "impliedValidSplitsAtRoot s1 = impliedValidSplitsAtRoot s"
    by blast
  note ex1 = exhausted_concat [OF r1(2)]
  let ?pops = "replicate (length removed1) ContextPop"
  show ?case
  proof (cases bb)
    case False
    with "1.prems" pe have res: "b = False" "s' = s1"
      by (auto simp: popSplitLoop.simps [of cfg eng s])
    from False r1(5) have e: "stack s1 = []" by simp
    have "calls s' = calls s @ ?pops \<and> rejectedBeforeLast eng (calls s) ?pops \<and>
      debuggingSolution s' = debuggingSolution s \<and> statistics s' = statistics s \<and>
      impliedValidSplitsAtRoot s' = impliedValidSplitsAtRoot s \<and>
      exhaustedAll s s' ?pops"
      using res r1 e ex1
      by (simp add: exhaustedAll_def rejectedIn_imp_beforeLast [OF rejectedIn_replicate_pop])
    with res show ?thesis by auto
  next
    case True
    with "1.prems" pe obtain u where u: "throwIfCompliant cfg s1 = Inr u"
      by (auto simp: popSplitLoop.simps [of cfg eng s] split: sum.splits)
    with "1.prems" pe True obtain s2 where s2: "applyAlternativeSplit cfg eng s1 = Inr s2"
      by (auto simp: popSplitLoop.simps [of cfg eng s] split: sum.splits)
    from applyAlternativeSplit_result [OF s2] obtain split remaining where r2:
      "stack s1 \<noteq> []"
      "alternativeSplits (last (stack s1)) = split # remaining"
      "stack s2 = butlast (stack s1) @
         [(last (stack s1))\<lparr>impliedValidSplits := [], activeSplit := split,
                            alternativeSplits := remaining\<rparr>]"
      "contextLevel s2 = contextLevel s1"
      "calls s2 = calls s1 @ [ContextPop, PostContextPopHook,
         RestoreState (engineState (last (stack s1))), PreContextPushHook, ContextPush,
         ApplySplit split]"
      "debuggingSolution s2 = debuggingSolution s1" "statistics s2 = statistics s1"
      "impliedValidSplitsAtRoot s2 = impliedValidSplitsAtRoot s1"
      by blast
    define e0 where "e0 = last (stack s1)"
    define below where "below = butlast (stack s1)"
    define e0' where "e0' = e0\<lparr>impliedValidSplits := [], activeSplit := split,
                            alternativeSplits := remaining\<rparr>"
    have st1: "stack s1 = below @ [e0]" using r2(1) by (simp add: e0_def below_def)
    have st: "stack s = below @ e0 # removed1" using r1(1) st1 by simp
    have st2: "stack s2 = below @ [e0']" using r2(3) by (simp add: e0_def below_def e0'_def)
    have alt0: "alternativeSplits e0 = split # remaining" using r2(2) by (simp add: e0_def)
    let ?block = "applicationBlock (engineState e0) split"
    have c2: "calls s2 = calls s @ ?pops @ ?block"
      using r2(5) r1(4) by (simp add: applicationBlock_def e0_def)
    have ap2: "appliedSplits (?pops @ ?block) = [split]"
      by (simp add: applicationBlock_def)
    define inconsistent where "inconsistent = (\<not> consistentBounds eng (calls s2))"
    define s3 where "s3 = (if shouldProduceProofs eng \<and> inconsistent
                           then engineCall ExplainSimplexFailure s2 else s2)"
    show ?thesis
    proof (cases inconsistent)
      case False
      then have s3s2: "s3 = s2" by (simp add: s3_def)
      from "1.prems" pe True u s2 False have res: "b = True" "s' = s2"
        by (auto simp: popSplitLoop.simps [of cfg eng s] Let_def inconsistent_def)
      have adv: "advancedTo eng s s' (?pops @ ?block)"
        unfolding advancedTo_def
        apply (rule exI [of _ below], rule exI [of _ e0], rule exI [of _ removed1],
               rule exI [of _ "[]"], rule exI [of _ split], rule exI [of _ remaining],
               rule exI [of _ ?pops])
        using st alt0 st2 ap2 ex1 False r2(4) r1(3) res
        by (simp add: e0'_def inconsistent_def)
      have rej: "rejectedBeforeLast eng (calls s) (?pops @ ?block)"
        by (rule rejectedBeforeLast_append [OF rejectedIn_replicate_pop])
           (simp add: applicationBlock_def rejectedBeforeLast_block)
      have "calls s' = calls s @ (?pops @ ?block) \<and>
        rejectedBeforeLast eng (calls s) (?pops @ ?block) \<and>
        debuggingSolution s' = debuggingSolution s \<and> statistics s' = statistics s \<and>
        impliedValidSplitsAtRoot s' = impliedValidSplitsAtRoot s \<and>
        advancedTo eng s s' (?pops @ ?block)"
        using adv rej res c2 r1 r2 by simp
      with res show ?thesis by (intro exI [of _ "?pops @ ?block"]) simp
    next
      case inc: True
      from "1.prems" pe True u s2 inc have rec: "popSplitLoop cfg eng s3 = Inr (b, s')"
        by (auto simp: popSplitLoop.simps [of cfg eng s] Let_def inconsistent_def s3_def)
      define expl where "expl = (if shouldProduceProofs eng then [ExplainSimplexFailure] else [])"
      have c3: "calls s3 = calls s @ (?pops @ ?block @ expl)"
        using c2 inc by (simp add: s3_def expl_def)
      have st3: "stack s3 = below @ [e0']" using st2 by (simp add: s3_def)
      have lv3: "contextLevel s3 = contextLevel s - int (length removed1)"
        using r2(4) r1(3) by (simp add: s3_def)
      have f3: "debuggingSolution s3 = debuggingSolution s" "statistics s3 = statistics s"
        "impliedValidSplitsAtRoot s3 = impliedValidSplitsAtRoot s"
        using r1 r2 by (simp_all add: s3_def)
      have ap3: "appliedSplits (?pops @ ?block @ expl) = [split]"
        by (simp add: applicationBlock_def expl_def)
      have "rejectedIn eng (calls s @ ?pops) (?block @ expl)"
        unfolding applicationBlock_def expl_def
        using inc c2 rejectedIn_block [of eng "calls s @ ?pops" "engineState e0" split
                "shouldProduceProofs eng"]
        by (simp add: inconsistent_def applicationBlock_def)
      then have rej3: "rejectedIn eng (calls s) (?pops @ ?block @ expl)"
        by (intro rejectedIn_append [OF rejectedIn_replicate_pop]) simp
      have bbT: "bb = True" using True by simp
      from "1.IH" [OF pe refl bbT u s2 inconsistent_def s3_def inc rec]
      obtain new' where ih:
        "calls s' = calls s3 @ new'" "rejectedBeforeLast eng (calls s3) new'"
        "debuggingSolution s' = debuggingSolution s3" "statistics s' = statistics s3"
        "impliedValidSplitsAtRoot s' = impliedValidSplitsAtRoot s3"
        "if b then advancedTo eng s3 s' new' else exhaustedAll s3 s' new'"
        by auto
      let ?new = "(?pops @ ?block @ expl) @ new'"
      have cs: "calls s' = calls s @ ?new" using ih(1) c3 by simp
      have rej: "rejectedBeforeLast eng (calls s) ?new"
        using rejectedBeforeLast_append [OF rej3] ih(2) c3 by simp
      have main: "if b then advancedTo eng s s' ?new else exhaustedAll s s' ?new"
      proof (cases b)
        case False
        with ih(6) have x: "stack s' = []"
          "appliedSplits new' = concat (map alternativeSplits (rev (stack s3)))"
          "contextLevel s' = contextLevel s3 - int (length (stack s3))"
          by (simp_all add: exhaustedAll_def)
        have "exhaustedAll s s' ?new"
          unfolding exhaustedAll_def
          using x st3 st lv3 ap3 alt0 ex1 by (simp add: e0'_def)
        with False show ?thesis by simp
      next
        case bt: True
        with ih(6) obtain below' e0'' removed' tried' a' rest' before' where x:
          "stack s3 = below' @ e0'' # removed'"
          "alternativeSplits e0'' = tried' @ a' # rest'"
          "stack s' = below' @ [e0''\<lparr>impliedValidSplits := [], activeSplit := a',
                                alternativeSplits := rest'\<rparr>]"
          "appliedSplits new' = concat (map alternativeSplits (rev removed')) @ tried' @ [a']"
          "new' = before' @ applicationBlock (engineState e0'') a'"
          "consistentBounds eng (calls s')"
          "contextLevel s' = contextLevel s3 - int (length removed')"
          unfolding advancedTo_def by auto
        have "advancedTo eng s s' ?new"
        proof (cases removed' rule: rev_cases)
          case Nil
          with x(1) st3 have eq: "below' = below" "e0'' = e0'" by simp_all
          show ?thesis
            unfolding advancedTo_def
            apply (rule exI [of _ below], rule exI [of _ e0], rule exI [of _ removed1],
               rule exI [of _ "split # tried'"], rule exI [of _ a'], rule exI [of _ rest'],
               rule exI [of _ "(?pops @ ?block @ expl) @ before'"])
            using st alt0 x eq Nil ap3 ex1 lv3
            by (simp add: e0'_def)
        next
          case (snoc rs r)
          with x(1) st3 have eq: "below = below' @ e0'' # rs" "r = e0'" by simp_all
          show ?thesis
            unfolding advancedTo_def
            apply (rule exI [of _ below'], rule exI [of _ e0''],
               rule exI [of _ "rs @ e0 # removed1"],
               rule exI [of _ tried'], rule exI [of _ a'], rule exI [of _ rest'],
               rule exI [of _ "(?pops @ ?block @ expl) @ before'"])
            using st alt0 x eq snoc ap3 ex1 lv3
            by (simp add: e0'_def)
        qed
        with bt show ?thesis by simp
      qed
      show ?thesis
        using cs rej main ih(3-5) f3 by (intro exI [of _ ?new]) simp
    qed
  qed
qed

lemma popSplit_result:
  assumes "popSplit cfg eng s = Inr (b, s')"
  shows "\<exists>new. calls s' = calls s @ new \<and> rejectedBeforeLast eng (calls s) new \<and>
           (if b then advancedTo eng s s' new else exhaustedAll s s' new)"
proof (cases "stack s = []")
  case True
  with assms have "b = False" "s' = s" by (auto simp: popSplit_def)
  with True have "calls s' = calls s @ [] \<and> rejectedBeforeLast eng (calls s) [] \<and>
           (if b then advancedTo eng s s' [] else exhaustedAll s s' [])"
    by (simp add: exhaustedAll_def rejectedBeforeLast_def)
  then show ?thesis by blast
next
  case False
  with assms obtain s1 where l: "popSplitLoop cfg eng s = Inr (b, s1)"
    by (auto simp: popSplit_def split: sum.splits bool.splits)
  have "s' = s1"
  proof (cases b)
    case True
    with assms False l obtain s2 where "statisticsDecisionLevel cfg eng s1 = Inr s2" "s' = s2"
      by (auto simp: popSplit_def split: sum.splits)
    then show ?thesis by (auto dest: statisticsDecisionLevel_same)
  next
    case False
    with assms \<open>stack s \<noteq> []\<close> l show ?thesis by (auto simp: popSplit_def)
  qed
  with popSplitLoop_result [OF l] show ?thesis by auto
qed

lemma advancedTo_depth:
  "advancedTo eng s s' new \<Longrightarrow>
   stack s' \<noteq> [] \<and> int (length (stack s')) - contextLevel s' = int (length (stack s)) - contextLevel s"
  by (auto simp: advancedTo_def)

lemma exhaustedAll_depth:
  "exhaustedAll s s' new \<Longrightarrow>
   stack s' = [] \<and> int (length (stack s')) - contextLevel s' = int (length (stack s)) - contextLevel s"
  by (auto simp: exhaustedAll_def)

lemma popSplit_depth:
  assumes "popSplit cfg eng s = Inr (b, s')"
  shows "b = (stack s' \<noteq> [])"
    and "int (length (stack s')) - contextLevel s' = int (length (stack s)) - contextLevel s"
  using popSplit_result [OF assms]
  by (auto dest: advancedTo_depth exhaustedAll_depth split: if_splits)

lemma recordImpliedValidSplit_depth:
  "recordImpliedValidSplit cfg validSplit s = Inr s' \<Longrightarrow>
   length (stack s') = length (stack s) \<and> contextLevel s' = contextLevel s"
  by (auto simp: recordImpliedValidSplit_def Let_def split: sum.splits if_splits)

lemma reportViolatedConstraint_depth:
  "stack (reportViolatedConstraint eng c s) = stack s \<and>
   contextLevel (reportViolatedConstraint eng c s) = contextLevel s"
  by (simp add: reportViolatedConstraint_def pickSplitPLConstraintSmt_def Let_def)









subsection \<open>performSplit on an inactive candidate\<close>

text \<open>
  C4. When the candidate constraint is inactive (and \<open>needToSplit\<close> holds where the
  assertion is compiled in), \<open>performSplit\<close> returns normally with \<open>needToSplit\<close>
  false and the candidate pointer cleared; it also resets the candidate's violation count
  and the rejection counter. No frame is created, no context level is pushed, and the trace
  of calls on the engine and the context is unchanged, so no case split is applied; the
  constraints, the snapshot counter, the root splits and the certificate stay as they were.
\<close>

theorem performSplit_inactive_candidate:
  assumes "constraintForSplitting s = Some c"
    and "\<not> isActive (constraints s c)"
    and "assertionsEnabled cfg \<longrightarrow> needToSplit s"
  shows "\<exists>s'. performSplit cfg eng s = Inr s' \<and>
           \<not> needToSplit s' \<and> constraintForSplitting s' = None \<and>
           getViolationCounts s' c = 0 \<and> numRejectedPhasePatternProposal s' = 0 \<and>
           stack s' = stack s \<and> contextLevel s' = contextLevel s \<and> calls s' = calls s \<and>
           stateId s' = stateId s \<and> constraints s' = constraints s \<and>
           impliedValidSplitsAtRoot s' = impliedValidSplitsAtRoot s \<and>
           certificateNodes s' = certificateNodes s \<and>
           certificateCurrentPointer s' = certificateCurrentPointer s"
  using assms
  by (auto simp: performSplit_def ASSERT_def Let_def getViolationCounts_def)

theorem performSplit_inactive_candidate_witness:
  "constraintForSplitting (exampleReadyCore False) = Some 10 \<and>
   \<not> isActive (constraints (exampleReadyCore False) 10) \<and>
   assertionsEnabled (exampleConfiguration True) \<and> needToSplit (exampleReadyCore False) \<and>
   (\<exists>s'. performSplit (exampleConfiguration True) (exampleEngine True) (exampleReadyCore False)
            = Inr s' \<and>
          \<not> needToSplit s' \<and> constraintForSplitting s' = None \<and> stack s' = [] \<and>
          contextLevel s' = 0 \<and> calls s' = [])"
proof -
  have h: "constraintForSplitting (exampleReadyCore False) = Some 10"
    "\<not> isActive (constraints (exampleReadyCore False) 10)"
    "assertionsEnabled (exampleConfiguration True) \<longrightarrow> needToSplit (exampleReadyCore False)"
    by (simp_all add: exampleReadyCore_def exampleCore_def)
  have e: "assertionsEnabled (exampleConfiguration True)" "needToSplit (exampleReadyCore False)"
    "stack (exampleReadyCore False) = []" "contextLevel (exampleReadyCore False) = 0"
    "calls (exampleReadyCore False) = []"
    by (simp_all add: exampleReadyCore_def exampleCore_def exampleConfiguration_def)
  from performSplit_inactive_candidate [OF h, of "exampleEngine True"]
  obtain s' where
    "performSplit (exampleConfiguration True) (exampleEngine True) (exampleReadyCore False) = Inr s'"
    "\<not> needToSplit s'" "constraintForSplitting s' = None"
    "stack s' = stack (exampleReadyCore False)"
    "contextLevel s' = contextLevel (exampleReadyCore False)"
    "calls s' = calls (exampleReadyCore False)"
    by blast
  with h(1,2) e show ?thesis by auto
qed

subsection \<open>Stack depth and context level\<close>

lemma popSplit_levels:
  assumes "popSplit cfg eng s = Inr (b, s')"
  shows "length (stack s') \<le> length (stack s) \<and>
         contextLevel s' = contextLevel s - int (length (stack s) - length (stack s'))"
proof -
  from popSplit_result [OF assms] obtain new where
    r: "if b then advancedTo eng s s' new else exhaustedAll s s' new" by blast
  show ?thesis
  proof (cases b)
    case True
    with r show ?thesis by (auto simp: advancedTo_def)
  next
    case False
    with r show ?thesis by (auto simp: exhaustedAll_def)
  qed
qed

text \<open>
  \<open>replaySmtStackEntry\<close>, the operation of SnC mode, appends a frame without pushing
  a context level, which is why the equality is claimed outside SnC mode only.
\<close>

lemma replaySmtStackEntry_depth:
  assumes "replaySmtStackEntry cfg eng stackEntry s = Inr s'"
  shows "length (stack s') = length (stack s) + 1 \<and> contextLevel s' = contextLevel s"
proof -
  have f: "stack (foldl (\<lambda>st impliedSplit. engineCall (ApplySplit impliedSplit) st) st0 xs)
             = stack st0 \<and>
           contextLevel (foldl (\<lambda>st impliedSplit. engineCall (ApplySplit impliedSplit) st) st0 xs)
             = contextLevel st0" for st0 xs
    by (induction xs arbitrary: st0) simp_all
  from assms show ?thesis
    by (auto simp: replaySmtStackEntry_def Let_def f dest!: statisticsDecisionLevel_same)
qed

text \<open>
  C7. The stack depth equals the context level after \<open>reset\<close>, and \<open>performSplit\<close>,
  \<open>popSplit\<close>, \<open>recordImpliedValidSplit\<close>, \<open>reportViolatedConstraint\<close> and
  \<open>resetSplitConditions\<close> keep them equal whenever they return; the operations of
  the source that are not modelled set counters, the candidate and the statistics only.
  \<open>performSplit\<close> either creates no frame and pushes nothing, or appends one frame and
  raises the level by one. \<open>popSplit\<close> lowers the level by exactly the number of frames
  it removes: each advance to an alternative pairs its pop with a push.
\<close>

theorem stack_depth_equals_context_level:
  assumes "depthMatchesLevel s"
  shows "(\<forall>s'. performSplit cfg eng s = Inr s' \<longrightarrow>
            depthMatchesLevel s' \<and>
            ((stack s' = stack s \<and> contextLevel s' = contextLevel s) \<or>
             (\<exists>entry. stack s' = stack s @ [entry] \<and> contextLevel s' = contextLevel s + 1))) \<and>
         (\<forall>b s'. popSplit cfg eng s = Inr (b, s') \<longrightarrow>
            depthMatchesLevel s' \<and> length (stack s') \<le> length (stack s) \<and>
            contextLevel s' = contextLevel s - int (length (stack s) - length (stack s'))) \<and>
         (\<forall>s'. recordImpliedValidSplit cfg validSplit s = Inr s' \<longrightarrow> depthMatchesLevel s') \<and>
         depthMatchesLevel (reportViolatedConstraint eng c s) \<and>
         depthMatchesLevel (resetSplitConditions s) \<and>
         depthMatchesLevel (reset s)"
proof (intro conjI allI impI)
  fix s' assume p: "performSplit cfg eng s = Inr s'"
  from performSplit_frames [OF p] assms show "depthMatchesLevel s'"
    by (auto simp: depthMatchesLevel_def)
  from performSplit_frames [OF p]
  show "(stack s' = stack s \<and> contextLevel s' = contextLevel s) \<or>
        (\<exists>entry. stack s' = stack s @ [entry] \<and> contextLevel s' = contextLevel s + 1)"
    by blast
next
  fix b s' assume p: "popSplit cfg eng s = Inr (b, s')"
  from popSplit_depth(2) [OF p] assms show "depthMatchesLevel s'"
    by (simp add: depthMatchesLevel_def)
  from popSplit_levels [OF p] show "length (stack s') \<le> length (stack s)"
    and "contextLevel s' = contextLevel s - int (length (stack s) - length (stack s'))"
    by simp_all
next
  fix s' assume "recordImpliedValidSplit cfg validSplit s = Inr s'"
  from recordImpliedValidSplit_depth [OF this] assms show "depthMatchesLevel s'"
    by (simp add: depthMatchesLevel_def)
next
  show "depthMatchesLevel (reportViolatedConstraint eng c s)"
    using assms reportViolatedConstraint_depth [of eng c s] by (simp add: depthMatchesLevel_def)
next
  show "depthMatchesLevel (resetSplitConditions s)"
    using assms by (simp add: depthMatchesLevel_def resetSplitConditions_def)
next
  show "depthMatchesLevel (reset s)"
    by (simp add: depthMatchesLevel_def reset_def)
qed

text \<open>
  The split of the example raises both the depth and the level from 0 to 1, and the pop
  that follows keeps both at 1.
\<close>

theorem stack_depth_equals_context_level_witness:
  "depthMatchesLevel (exampleReadyCore True) \<and>
   performSplit (exampleConfiguration True) (exampleEngine True) (exampleReadyCore True)
     = Inr exampleSplitCore \<and>
   depthMatchesLevel exampleSplitCore \<and>
   length (stack exampleSplitCore) = 1 \<and> contextLevel exampleSplitCore = 1"
  using stack_depth_equals_context_level
          [of "exampleReadyCore True" "exampleConfiguration True" "exampleEngine True"]
  by (simp add: performSplit_def ASSERT_def exampleConfiguration_def exampleEngine_def
      exampleReadyCore_def exampleCore_def exampleSplitCore_def splitLower_def splitUpper_def
      certificateAddChildren_def certificateEnterChild_def statisticsDecisionLevel_def
      pushContext_def engineCall_def Let_def fun_eq_iff depthMatchesLevel_def)

section \<open>Properties of the tightener\<close>

subsection \<open>Registering bounds\<close>

lemma sameBookkeeping_refl [simp]: "sameBookkeeping st st"
  by (simp add: sameBookkeeping_def)

lemma sameBookkeeping_trans:
  "sameBookkeeping st st1 \<Longrightarrow> sameBookkeeping st1 st2 \<Longrightarrow> sameBookkeeping st st2"
  by (simp add: sameBookkeeping_def)

lemma noNewCrossing_refl [simp]: "noNewCrossing cfg st st"
  by (simp add: noNewCrossing_def)

lemma noNewCrossing_trans:
  "noNewCrossing cfg st st1 \<Longrightarrow> noNewCrossing cfg st1 st2 \<Longrightarrow> noNewCrossing cfg st st2"
  unfolding noNewCrossing_def by metis

lemma registerTighterLowerBound_effect:
  "registerTighterLowerBound cfg v x st = (k, st1) \<Longrightarrow>
   registered st1 = registered st @ [Tightening v x LB] \<and> sameBookkeeping st st1 \<and>
   upperBounds st1 = upperBounds st \<and> (\<forall>w. w \<noteq> v \<longrightarrow> lowerBounds st1 w = lowerBounds st w)"
  by (auto simp: registerTighterLowerBound_def sameBookkeeping_def Let_def split: if_splits)

lemma registerTighterUpperBound_effect:
  "registerTighterUpperBound cfg v x st = (k, st1) \<Longrightarrow>
   registered st1 = registered st @ [Tightening v x UB] \<and> sameBookkeeping st st1 \<and>
   lowerBounds st1 = lowerBounds st \<and> (\<forall>w. w \<noteq> v \<longrightarrow> upperBounds st1 w = upperBounds st w)"
  by (auto simp: registerTighterUpperBound_def sameBookkeeping_def Let_def split: if_splits)

text \<open>Registering both bounds of one variable and finding them consistent.\<close>

lemma register_pair:
  assumes l: "registerTighterLowerBound cfg v lo st = (k1, st1)"
    and u: "registerTighterUpperBound cfg v hi st1 = (k2, st2)"
  shows "registered st2 = registered st @ [Tightening v lo LB, Tightening v hi UB]"
    and "sameBookkeeping st st2"
    and "\<not> gt cfg (getLowerBound st2 v) (getUpperBound st2 v) \<Longrightarrow> noNewCrossing cfg st st2"
proof -
  note a = registerTighterLowerBound_effect [OF l]
  note b = registerTighterUpperBound_effect [OF u]
  show "registered st2 = registered st @ [Tightening v lo LB, Tightening v hi UB]"
    using a b by simp
  show "sameBookkeeping st st2" using a b by (blast intro: sameBookkeeping_trans)
  assume n: "\<not> gt cfg (getLowerBound st2 v) (getUpperBound st2 v)"
  show "noNewCrossing cfg st st2"
    unfolding noNewCrossing_def
  proof (intro allI impI)
    fix w assume g: "gt cfg (lowerBounds st2 w) (upperBounds st2 w)"
    with n have "w \<noteq> v" by (auto simp: getLowerBound_def getUpperBound_def)
    with a b show "lowerBounds st2 w = lowerBounds st w \<and> upperBounds st2 w = upperBounds st w"
      by simp
  qed
qed


subsection \<open>The loops over the entries of a row\<close>

lemma tightenInvertedBasisEntries_result:
  "tightenInvertedBasisEntries cfg auxLb auxUb es result st = (res, st') \<Longrightarrow>
   sameBookkeeping st st' \<and> crossingReported cfg st (res, st') \<and>
   (\<exists>k \<le> length (filter (keptCell cfg) es).
      registered st' = registered st @
        concat (map (invertedBasisRequest cfg auxLb auxUb) (take k (filter (keptCell cfg) es))) \<and>
      (\<forall>x. res = Inr x \<longrightarrow> k = length (filter (keptCell cfg) es)))"
proof (induction es arbitrary: result st)
  case Nil
  then show ?case by (auto simp: crossingReported_def)
next
  case (Cons p es)
  obtain entry cell where p: "p = (entry, cell)" by (cases p)
  show ?case
  proof (cases "keptCell cfg p")
    case False
    with Cons.prems p have "tightenInvertedBasisEntries cfg auxLb auxUb es result st = (res, st')"
      by (simp add: keptCell_def)
    from Cons.IH [OF this] False show ?thesis by simp
  next
    case True
    obtain lowerBound upperBound where d:
      "deriveForEntry auxLb auxUb cell (coefficient entry) = (lowerBound, upperBound)"
      by (cases "deriveForEntry auxLb auxUb cell (coefficient entry)")
    let ?lo = "lowerBound - EXPLICIT_BASIS_BOUND_TIGHTENING_ROUNDING_CONSTANT cfg"
    let ?hi = "upperBound + EXPLICIT_BASIS_BOUND_TIGHTENING_ROUNDING_CONSTANT cfg"
    obtain k1 st1 where l: "registerTighterLowerBound cfg (var entry) ?lo st = (k1, st1)"
      by (cases "registerTighterLowerBound cfg (var entry) ?lo st")
    obtain k2 st2 where u: "registerTighterUpperBound cfg (var entry) ?hi st1 = (k2, st2)"
      by (cases "registerTighterUpperBound cfg (var entry) ?hi st1")
    note rp = register_pair [OF l u]
    have req: "invertedBasisRequest cfg auxLb auxUb p =
        [Tightening (var entry) ?lo LB, Tightening (var entry) ?hi UB]"
      by (simp add: invertedBasisRequest_def p d)
    let ?kept = "filter (keptCell cfg) es"
    show ?thesis
    proof (cases "gt cfg (getLowerBound st2 (var entry)) (getUpperBound st2 (var entry))")
      case gtT: True
      with Cons.prems p True d l u have r: "res = Inl InfeasibleQueryException" "st' = st2"
        by (simp_all add: Let_def keptCell_def)
      have c: "crossingReported cfg st (res, st')"
        using r gtT by (auto simp: crossingReported_def getLowerBound_def getUpperBound_def)
      have "Suc 0 \<le> length (filter (keptCell cfg) (p # es)) \<and>
        registered st' = registered st @
          concat (map (invertedBasisRequest cfg auxLb auxUb)
                    (take (Suc 0) (filter (keptCell cfg) (p # es)))) \<and>
        (\<forall>x. res = Inr x \<longrightarrow> Suc 0 = length (filter (keptCell cfg) (p # es)))"
        using True r rp(1) req by simp
      then have "\<exists>k \<le> length (filter (keptCell cfg) (p # es)).
        registered st' = registered st @
          concat (map (invertedBasisRequest cfg auxLb auxUb)
                    (take k (filter (keptCell cfg) (p # es)))) \<and>
        (\<forall>x. res = Inr x \<longrightarrow> k = length (filter (keptCell cfg) (p # es)))"
        by blast
      with c r rp(2) show ?thesis by simp
    next
      case ngt: False
      with Cons.prems p True d l u have
        "tightenInvertedBasisEntries cfg auxLb auxUb es (result + k1 + k2) st2 = (res, st')"
        by (simp add: Let_def keptCell_def)
      from Cons.IH [OF this] obtain k where ih:
        "sameBookkeeping st2 st'" "crossingReported cfg st2 (res, st')"
        "k \<le> length ?kept"
        "registered st' = registered st2 @
           concat (map (invertedBasisRequest cfg auxLb auxUb) (take k ?kept))"
        "\<forall>x. res = Inr x \<longrightarrow> k = length ?kept"
        by blast
      have c: "crossingReported cfg st (res, st')"
        using ih(2) rp(3) [OF ngt]
        by (auto simp: crossingReported_def split: sum.splits intro: noNewCrossing_trans)
      have "Suc k \<le> length (filter (keptCell cfg) (p # es)) \<and>
        registered st' = registered st @
          concat (map (invertedBasisRequest cfg auxLb auxUb)
                    (take (Suc k) (filter (keptCell cfg) (p # es)))) \<and>
        (\<forall>x. res = Inr x \<longrightarrow> Suc k = length (filter (keptCell cfg) (p # es)))"
        using True ih(3,4,5) rp(1) req by simp
      then have "\<exists>k \<le> length (filter (keptCell cfg) (p # es)).
        registered st' = registered st @
          concat (map (invertedBasisRequest cfg auxLb auxUb)
                    (take k (filter (keptCell cfg) (p # es)))) \<and>
        (\<forall>x. res = Inr x \<longrightarrow> k = length (filter (keptCell cfg) (p # es)))"
        by blast
      with c sameBookkeeping_trans [OF rp(2) ih(1)] show ?thesis by simp
    qed
  qed
qed

lemma tightenConstraintEntries_result:
  "tightenConstraintEntries cfg cells auxLb auxUb es result st = (res, st') \<Longrightarrow>
   sameBookkeeping st st' \<and> crossingReported cfg st (res, st') \<and>
   (\<exists>k \<le> length (filter (keptConstraintEntry cfg) es).
      registered st' = registered st @
        concat (map (constraintRequest cells auxLb auxUb)
                  (take k (filter (keptConstraintEntry cfg) es))) \<and>
      (\<forall>x. res = Inr x \<longrightarrow> k = length (filter (keptConstraintEntry cfg) es)))"
proof (induction es arbitrary: result st)
  case Nil
  then show ?case by (auto simp: crossingReported_def)
next
  case (Cons entry es)
  show ?case
  proof (cases "keptConstraintEntry cfg entry")
    case False
    with Cons.prems have
      "tightenConstraintEntries cfg cells auxLb auxUb es result st = (res, st')"
      by (simp add: keptConstraintEntry_def Let_def)
    from Cons.IH [OF this] False show ?thesis by simp
  next
    case True
    obtain lowerBound upperBound where d:
      "deriveForEntry auxLb auxUb (cells (entryIndex entry)) (entryValue entry)
         = (lowerBound, upperBound)"
      by (cases "deriveForEntry auxLb auxUb (cells (entryIndex entry)) (entryValue entry)")
    obtain k1 st1 where l:
      "registerTighterLowerBound cfg (entryIndex entry) lowerBound st = (k1, st1)"
      by (cases "registerTighterLowerBound cfg (entryIndex entry) lowerBound st")
    obtain k2 st2 where u:
      "registerTighterUpperBound cfg (entryIndex entry) upperBound st1 = (k2, st2)"
      by (cases "registerTighterUpperBound cfg (entryIndex entry) upperBound st1")
    note rp = register_pair [OF l u]
    have req: "constraintRequest cells auxLb auxUb entry =
        [Tightening (entryIndex entry) lowerBound LB, Tightening (entryIndex entry) upperBound UB]"
      by (simp add: constraintRequest_def d)
    let ?kept = "filter (keptConstraintEntry cfg) es"
    show ?thesis
    proof (cases "gt cfg (getLowerBound st2 (entryIndex entry))
                    (getUpperBound st2 (entryIndex entry))")
      case gtT: True
      with Cons.prems True d l u have r: "res = Inl InfeasibleQueryException" "st' = st2"
        by (simp_all add: Let_def keptConstraintEntry_def)
      have c: "crossingReported cfg st (res, st')"
        using r gtT by (auto simp: crossingReported_def getLowerBound_def getUpperBound_def)
      have "Suc 0 \<le> length (filter (keptConstraintEntry cfg) (entry # es)) \<and>
        registered st' = registered st @
          concat (map (constraintRequest cells auxLb auxUb)
                    (take (Suc 0) (filter (keptConstraintEntry cfg) (entry # es)))) \<and>
        (\<forall>x. res = Inr x \<longrightarrow> Suc 0 = length (filter (keptConstraintEntry cfg) (entry # es)))"
        using True r rp(1) req by simp
      then have "\<exists>k \<le> length (filter (keptConstraintEntry cfg) (entry # es)).
        registered st' = registered st @
          concat (map (constraintRequest cells auxLb auxUb)
                    (take k (filter (keptConstraintEntry cfg) (entry # es)))) \<and>
        (\<forall>x. res = Inr x \<longrightarrow> k = length (filter (keptConstraintEntry cfg) (entry # es)))"
        by blast
      with c r rp(2) show ?thesis by simp
    next
      case ngt: False
      with Cons.prems True d l u have
        "tightenConstraintEntries cfg cells auxLb auxUb es (result + k1 + k2) st2 = (res, st')"
        by (simp add: Let_def keptConstraintEntry_def)
      from Cons.IH [OF this] obtain k where ih:
        "sameBookkeeping st2 st'" "crossingReported cfg st2 (res, st')"
        "k \<le> length ?kept"
        "registered st' = registered st2 @
           concat (map (constraintRequest cells auxLb auxUb) (take k ?kept))"
        "\<forall>x. res = Inr x \<longrightarrow> k = length ?kept"
        by blast
      have c: "crossingReported cfg st (res, st')"
        using ih(2) rp(3) [OF ngt]
        by (auto simp: crossingReported_def split: sum.splits intro: noNewCrossing_trans)
      have "Suc k \<le> length (filter (keptConstraintEntry cfg) (entry # es)) \<and>
        registered st' = registered st @
          concat (map (constraintRequest cells auxLb auxUb)
                    (take (Suc k) (filter (keptConstraintEntry cfg) (entry # es)))) \<and>
        (\<forall>x. res = Inr x \<longrightarrow> Suc k = length (filter (keptConstraintEntry cfg) (entry # es)))"
        using True ih(3,4,5) rp(1) req by simp
      then have "\<exists>k \<le> length (filter (keptConstraintEntry cfg) (entry # es)).
        registered st' = registered st @
          concat (map (constraintRequest cells auxLb auxUb)
                    (take k (filter (keptConstraintEntry cfg) (entry # es)))) \<and>
        (\<forall>x. res = Inr x \<longrightarrow> k = length (filter (keptConstraintEntry cfg) (entry # es)))"
        by blast
      with c sameBookkeeping_trans [OF rp(2) ih(1)] show ?thesis by simp
    qed
  qed
qed


subsection \<open>Rows and passes\<close>

text \<open>Row level: bookkeeping and crossings.\<close>

lemma tightenOnSingleConstraintRow_safe:
  "tightenOnSingleConstraintRow cfg tableau r st = (res, st') \<Longrightarrow>
   sameBookkeeping st st' \<and> crossingReported cfg st (res, st')"
  by (auto simp: tightenOnSingleConstraintRow_def Let_def split: prod.splits
        dest!: tightenConstraintEntries_result)

lemma tightenOnSingleInvertedBasisRow_safe:
  assumes "tightenOnSingleInvertedBasisRow cfg r st = (res, st')"
  shows "sameBookkeeping st st' \<and> crossingReported cfg st (res, st')"
proof -
  let ?cells = "map (invertedBasisCell cfg st) (row r)"
  obtain lowerBound upperBound where f:
    "foldl accumulateForY (scalar r, scalar r) ?cells = (lowerBound, upperBound)"
    by (cases "foldl accumulateForY (scalar r, scalar r) ?cells")
  let ?lo = "lowerBound - EXPLICIT_BASIS_BOUND_TIGHTENING_ROUNDING_CONSTANT cfg"
  let ?hi = "upperBound + EXPLICIT_BASIS_BOUND_TIGHTENING_ROUNDING_CONSTANT cfg"
  obtain k1 st1 where l: "registerTighterLowerBound cfg (lhs r) ?lo st = (k1, st1)"
    by (cases "registerTighterLowerBound cfg (lhs r) ?lo st")
  obtain k2 st2 where u: "registerTighterUpperBound cfg (lhs r) ?hi st1 = (k2, st2)"
    by (cases "registerTighterUpperBound cfg (lhs r) ?hi st1")
  note rp = register_pair [OF l u]
  show ?thesis
  proof (cases "gt cfg (getLowerBound st2 (lhs r)) (getUpperBound st2 (lhs r))")
    case True
    with assms f l u have "res = Inl InfeasibleQueryException" "st' = st2"
      by (simp_all add: tightenOnSingleInvertedBasisRow_def Let_def)
    with True rp(2) show ?thesis
      by (auto simp: crossingReported_def getLowerBound_def getUpperBound_def)
  next
    case False
    obtain auxLb auxUb where a: "foldl subtractFromAux
        (getLowerBound st2 (lhs r) - scalar r, getUpperBound st2 (lhs r) - scalar r) ?cells
        = (auxLb, auxUb)"
      by (cases "foldl subtractFromAux
        (getLowerBound st2 (lhs r) - scalar r, getUpperBound st2 (lhs r) - scalar r) ?cells")
    from assms f l u False a have
      "tightenInvertedBasisEntries cfg auxLb auxUb (zip (row r) ?cells) (0 + k1 + k2) st2
        = (res, st')"
      by (simp add: tightenOnSingleInvertedBasisRow_def Let_def)
    from tightenInvertedBasisEntries_result [OF this] have
      "sameBookkeeping st2 st'" "crossingReported cfg st2 (res, st')" by simp_all
    with rp(2) rp(3) [OF False] show ?thesis
      by (auto simp: crossingReported_def split: sum.splits
            intro: noNewCrossing_trans sameBookkeeping_trans)
  qed
qed

lemma passOverRows_safe:
  "passOverRows cfg rs newBounds st = (res, st') \<Longrightarrow>
   sameBookkeeping st st' \<and> crossingReported cfg st (res, st')"
proof (induction rs arbitrary: newBounds st)
  case Nil
  then show ?case by (auto simp: crossingReported_def)
next
  case (Cons r rs)
  obtain res1 st1 where t: "tightenOnSingleInvertedBasisRow cfg r st = (res1, st1)"
    by (cases "tightenOnSingleInvertedBasisRow cfg r st")
  note s = tightenOnSingleInvertedBasisRow_safe [OF t]
  show ?case
  proof (cases res1)
    case (Inl e)
    with Cons.prems t have "res = Inl e" "st' = st1" by simp_all
    with s Inl show ?thesis by simp
  next
    case (Inr k)
    with Cons.prems t have "passOverRows cfg rs (newBounds + k) st1 = (res, st')" by simp
    from Cons.IH [OF this] s Inr show ?thesis
      by (auto simp: crossingReported_def split: sum.splits
            intro: noNewCrossing_trans sameBookkeeping_trans)
  qed
qed

lemma passOverConstraintRows_safe:
  "passOverConstraintRows cfg tableau rs result st = (res, st') \<Longrightarrow>
   sameBookkeeping st st' \<and> crossingReported cfg st (res, st')"
proof (induction rs arbitrary: result st)
  case Nil
  then show ?case by (auto simp: crossingReported_def)
next
  case (Cons r rs)
  obtain res1 st1 where t: "tightenOnSingleConstraintRow cfg tableau r st = (res1, st1)"
    by (cases "tightenOnSingleConstraintRow cfg tableau r st")
  note s = tightenOnSingleConstraintRow_safe [OF t]
  show ?case
  proof (cases res1)
    case (Inl e)
    with Cons.prems t have "res = Inl e" "st' = st1" by simp_all
    with s Inl show ?thesis by simp
  next
    case (Inr k)
    with Cons.prems t have "passOverConstraintRows cfg tableau rs (result + k) st1 = (res, st')"
      by simp
    from Cons.IH [OF this] s Inr show ?thesis
      by (auto simp: crossingReported_def split: sum.splits
            intro: noNewCrossing_trans sameBookkeeping_trans)
  qed
qed

lemma onePassOverConstraintMatrix_safe:
  "onePassOverConstraintMatrix cfg tableau s = (r, s') \<Longrightarrow>
   sameBookkeeping s s' \<and> crossingReported cfg s (r, s')"
  unfolding onePassOverConstraintMatrix_def by (rule passOverConstraintRows_safe)

lemma onePassOverInvertedBasisRows_safe:
  "onePassOverInvertedBasisRows cfg s = (r, s') \<Longrightarrow>
   sameBookkeeping s s' \<and> crossingReported cfg s (r, s')"
  unfolding onePassOverInvertedBasisRows_def by (rule passOverRows_safe)


subsection \<open>The saturation loop\<close>

lemma saturationRun_Inl:
  "saturationRun cap st (Inl e, st') =
     (\<exists>new. learned st' = learned st @ new \<and> (\<forall>x \<in> set (butlast new). 0 < x) \<and>
        passesStarted st' = passesStarted st + length new + 1 \<and>
        length new + 1 \<le> unat cap \<and> (\<forall>x \<in> set new. 0 < x))"
  by (simp add: saturationRun_def)

lemma saturationRun_Inr:
  "saturationRun cap st (Inr u, st') =
     (\<exists>new. learned st' = learned st @ new \<and> (\<forall>x \<in> set (butlast new). 0 < x) \<and>
        passesStarted st' = passesStarted st + length new \<and> new \<noteq> [] \<and>
        length new \<le> unat cap \<and> (last new = 0 \<or> length new = unat cap))"
  by (simp add: saturationRun_def)

lemma saturationRun_fields:
  "learned a = learned b \<Longrightarrow> passesStarted a = passesStarted b \<Longrightarrow>
   learned a' = learned b' \<Longrightarrow> passesStarted a' = passesStarted b' \<Longrightarrow>
   saturationRun cap a (res, a') = saturationRun cap b (res, b')"
  by (cases res) (simp_all add: saturationRun_Inl saturationRun_Inr)

lemma saturationRun_single:
  assumes "saturationRun 1 st (res, st')"
  shows "passesStarted st' = passesStarted st + 1"
proof (cases res)
  case (Inl e)
  with assms show ?thesis by (auto simp: saturationRun_Inl)
next
  case (Inr u)
  from assms [unfolded Inr saturationRun_Inr] obtain new :: "u32 list" where
    n: "passesStarted st' = passesStarted st + length new" "new \<noteq> []"
       "length new \<le> unat (1 :: u32)"
    by blast
  from n(2,3) have "length new = 1" by (cases new) auto
  with n(1) show ?thesis by simp
qed

lemma saturationRun_InlI:
  "learned st' = learned st @ new \<Longrightarrow> \<forall>x \<in> set new. 0 < x \<Longrightarrow>
   passesStarted st' = passesStarted st + length new + 1 \<Longrightarrow> length new + 1 \<le> unat cap \<Longrightarrow>
   saturationRun cap st (Inl e, st')"
  unfolding saturationRun_def by (auto dest: in_set_butlastD)

lemma saturationRun_InrI:
  "learned st' = learned st @ new \<Longrightarrow> \<forall>x \<in> set (butlast new). 0 < x \<Longrightarrow>
   passesStarted st' = passesStarted st + length new \<Longrightarrow> new \<noteq> [] \<Longrightarrow>
   length new \<le> unat cap \<Longrightarrow> last new = 0 \<or> length new = unat cap \<Longrightarrow>
   saturationRun cap st (Inr u, st')"
  unfolding saturationRun_def by auto

lemma saturationLoop_result:
  "(\<And>s r s'. onePass s = (r, s') \<Longrightarrow>
       sameBookkeeping s s' \<and> crossingReported cfg s (r, s')) \<Longrightarrow>
   cap \<noteq> 0 \<Longrightarrow> saturationLoop onePass cap st = (res, st') \<Longrightarrow>
   saturationRun cap st (res, st') \<and> liveInverses st' = liveInverses st \<and>
   rows st' = rows st \<and> crossingReported cfg st (res, st')"
proof (induction onePass cap st arbitrary: res st' rule: saturationLoop.induct)
  case (1 onePass cap st)
  let ?st0 = "st\<lparr>passesStarted := passesStarted st + 1\<rparr>"
  obtain r1 st1 where p: "onePass ?st0 = (r1, st1)" by (cases "onePass ?st0")
  from "1.prems"(1) [OF p] have bk: "sameBookkeeping ?st0 st1"
    and cr: "crossingReported cfg ?st0 (r1, st1)" by simp_all
  from bk have f1: "passesStarted st1 = passesStarted st + 1" "learned st1 = learned st"
    "liveInverses st1 = liveInverses st" "rows st1 = rows st"
    by (simp_all add: sameBookkeeping_def)
  have cap1: "1 \<le> unat cap" using "1.prems"(2) by (simp add: Suc_le_eq unat_gt_0)
  show ?case
  proof (cases r1)
    case (Inl e)
    with "1.prems"(3) p have r: "res = Inl e" "st' = st1"
      by (simp_all add: saturationLoop.simps [of onePass cap st])
    have "saturationRun cap st (Inl e, st1)"
      by (rule saturationRun_InlI [where new = "[]"]) (use f1 cap1 in simp_all)
    moreover have "crossingReported cfg st (Inl e, st1)"
      using cr Inl by (simp add: crossingReported_def)
    ultimately show ?thesis using r f1 by simp
  next
    case (Inr b)
    define st2 where "st2 = st1\<lparr>learned := learned st1 @ [b]\<rparr>"
    define remaining where "remaining = cap - 1"
    have n1: "noNewCrossing cfg st st1"
      using cr Inr by (simp add: crossingReported_def noNewCrossing_def)
    show ?thesis
    proof (cases "remaining \<noteq> 0 \<and> 0 < b")
      case False
      with "1.prems"(3) p Inr have r: "res = Inr ()" "st' = st2"
        by (auto simp: saturationLoop.simps [of onePass cap st] Let_def st2_def remaining_def
              split: if_splits)
      have last: "b = 0 \<or> Suc 0 = unat cap"
      proof (cases "remaining = 0")
        case True
        then have "cap = 1" by (simp add: remaining_def)
        then show ?thesis by simp
      next
        case rem: False
        with False have "b = 0" using word_neq_0_conv by blast
        then show ?thesis by simp
      qed
      have "saturationRun cap st (Inr (), st2)"
        by (rule saturationRun_InrI [where new = "[b]"])
           (use f1 cap1 last in \<open>simp_all add: st2_def\<close>)
      moreover have "crossingReported cfg st (Inr (), st2)"
        using n1 by (simp add: crossingReported_def noNewCrossing_def st2_def)
      ultimately show ?thesis using r f1 by (simp add: st2_def)
    next
      case True
      with "1.prems"(3) p Inr have rec: "saturationLoop onePass remaining st2 = (res, st')"
        by (simp add: saturationLoop.simps [of onePass cap st] Let_def st2_def remaining_def)
      from True have rem0: "remaining \<noteq> 0" and bpos: "0 < b" by simp_all
      have ur: "unat remaining = unat cap - 1"
        using "1.prems"(2) by (simp add: remaining_def unat_minus_one)
      from "1.IH" [OF p [symmetric] Inr st2_def remaining_def True "1.prems"(1) rem0 rec]
      have ih: "saturationRun remaining st2 (res, st')" "liveInverses st' = liveInverses st2"
        "rows st' = rows st2" "crossingReported cfg st2 (res, st')" by simp_all
      from ih(1) obtain new' where n:
        "learned st' = learned st2 @ new'" "\<forall>x \<in> set (butlast new'). 0 < x"
        "case res of
           Inr u \<Rightarrow> passesStarted st' = passesStarted st2 + length new' \<and> new' \<noteq> [] \<and>
                    length new' \<le> unat remaining \<and> (last new' = 0 \<or> length new' = unat remaining)
         | Inl e \<Rightarrow> passesStarted st' = passesStarted st2 + length new' + 1 \<and>
                    length new' + 1 \<le> unat remaining \<and> (\<forall>x \<in> set new'. 0 < x)"
        unfolding saturationRun_def by auto
      have l2: "learned st' = learned st @ (b # new')"
        using n(1) f1 by (simp add: st2_def)
      have p2: "passesStarted st2 = passesStarted st + 1" using f1 by (simp add: st2_def)
      have run: "saturationRun cap st (res, st')"
      proof (cases res)
        case (Inl e)
        with n(3) have x: "passesStarted st' = passesStarted st2 + length new' + 1"
          "length new' + 1 \<le> unat remaining" "\<forall>x \<in> set new'. 0 < x" by simp_all
        show ?thesis unfolding Inl
          by (rule saturationRun_InlI [where new = "b # new'"])
             (use l2 x p2 bpos ur cap1 in simp_all)
      next
        case (Inr u)
        with n(3) have x: "passesStarted st' = passesStarted st2 + length new'" "new' \<noteq> []"
          "length new' \<le> unat remaining" "last new' = 0 \<or> length new' = unat remaining"
          by simp_all
        show ?thesis unfolding Inr
          by (rule saturationRun_InrI [where new = "b # new'"])
             (use l2 x p2 bpos ur cap1 n(2) in auto)
      qed
      have n2: "noNewCrossing cfg st st2" using n1 by (simp add: noNewCrossing_def st2_def)
      have "crossingReported cfg st (res, st')"
        using ih(4) n2
        by (auto simp: crossingReported_def split: sum.splits intro: noNewCrossing_trans)
      with run ih(2,3) f1 show ?thesis by (simp add: st2_def)
    qed
  qed
qed

lemma saturationLoop_safe:
  "(\<And>s r s'. onePass s = (r, s') \<Longrightarrow>
       sameBookkeeping s s' \<and> crossingReported cfg s (r, s')) \<Longrightarrow>
   saturationLoop onePass cap st = (res, st') \<Longrightarrow>
   liveInverses st' = liveInverses st \<and> rows st' = rows st \<and>
   crossingReported cfg st (res, st')"
proof (induction onePass cap st arbitrary: res st' rule: saturationLoop.induct)
  case (1 onePass cap st)
  let ?st0 = "st\<lparr>passesStarted := passesStarted st + 1\<rparr>"
  obtain r1 st1 where p: "onePass ?st0 = (r1, st1)" by (cases "onePass ?st0")
  from "1.prems"(1) [OF p] have bk: "sameBookkeeping ?st0 st1"
    and cr: "crossingReported cfg ?st0 (r1, st1)" by simp_all
  from bk have f1: "liveInverses st1 = liveInverses st" "rows st1 = rows st"
    by (simp_all add: sameBookkeeping_def)
  show ?case
  proof (cases r1)
    case (Inl e)
    with "1.prems"(2) p have r: "res = Inl e" "st' = st1"
      by (simp_all add: saturationLoop.simps [of onePass cap st])
    have "crossingReported cfg st (Inl e, st1)"
      using cr Inl by (simp add: crossingReported_def)
    then show ?thesis using r f1 by simp
  next
    case (Inr b)
    define st2 where "st2 = st1\<lparr>learned := learned st1 @ [b]\<rparr>"
    define remaining where "remaining = cap - 1"
    have n2: "noNewCrossing cfg st st2"
      using cr Inr by (simp add: crossingReported_def noNewCrossing_def st2_def)
    show ?thesis
    proof (cases "remaining \<noteq> 0 \<and> 0 < b")
      case False
      with "1.prems"(2) p Inr have r: "res = Inr ()" "st' = st2"
        by (auto simp: saturationLoop.simps [of onePass cap st] Let_def st2_def remaining_def
              split: if_splits)
      with n2 f1 show ?thesis by (simp add: crossingReported_def st2_def)
    next
      case True
      with "1.prems"(2) p Inr have rec: "saturationLoop onePass remaining st2 = (res, st')"
        by (simp add: saturationLoop.simps [of onePass cap st] Let_def st2_def remaining_def)
      from "1.IH" [OF p [symmetric] Inr st2_def remaining_def True "1.prems"(1) rec]
      have ih: "liveInverses st' = liveInverses st2" "rows st' = rows st2"
        "crossingReported cfg st2 (res, st')" by simp_all
      have "crossingReported cfg st (res, st')"
        using ih(3) n2
        by (auto simp: crossingReported_def split: sum.splits intro: noNewCrossing_trans)
      with ih(1,2) f1 show ?thesis by (simp add: st2_def)
    qed
  qed
qed

lemma onePass_bookkeeping_only:
  "(\<And>s r s'. onePass s = (r, s') \<Longrightarrow>
       sameBookkeeping s s' \<and> crossingReported cfg s (r, s')) \<Longrightarrow>
   cap \<noteq> 0 \<Longrightarrow> saturationLoop onePass cap st = (res, st') \<Longrightarrow>
   saturationRun cap st (res, st')"
  using saturationLoop_result by blast


subsection \<open>The number of passes\<close>

text \<open>
  C6. With a saturation cap that is not zero (section 6 of the spec has it positive), each
  of the three examine routines called with \<open>untilSaturation\<close> makes at most
  \<open>ROW_BOUND_TIGHTENER_SATURATION_ITERATIONS\<close> passes and stops right after the first
  pass that learns no bound: every completed pass before the last one learned a bound,
  and a normal return short of the cap has a last pass that learned none. Called without
  \<open>untilSaturation\<close> each routine makes exactly one pass. A pass that raises
  \<open>InfeasibleQueryException\<close> counts as a pass and ends the routine.
\<close>

theorem examine_passes_bounded:
  assumes "untilSaturation \<longrightarrow> ROW_BOUND_TIGHTENER_SATURATION_ITERATIONS cfg \<noteq> 0"
  shows "saturationRun (if untilSaturation then ROW_BOUND_TIGHTENER_SATURATION_ITERATIONS cfg else 1)
           st (examineConstraintMatrix cfg tableau untilSaturation st) \<and>
         saturationRun (if untilSaturation then ROW_BOUND_TIGHTENER_SATURATION_ITERATIONS cfg else 1)
           st (examineImplicitInvertedBasisMatrix cfg tableau untilSaturation st) \<and>
         saturationRun (if untilSaturation then ROW_BOUND_TIGHTENER_SATURATION_ITERATIONS cfg else 1)
           st (examineInvertedBasisMatrix cfg tableau untilSaturation st) \<and>
         (\<not> untilSaturation \<longrightarrow>
            passesStarted (snd (examineConstraintMatrix cfg tableau untilSaturation st))
              = passesStarted st + 1 \<and>
            passesStarted (snd (examineImplicitInvertedBasisMatrix cfg tableau untilSaturation st))
              = passesStarted st + 1 \<and>
            passesStarted (snd (examineInvertedBasisMatrix cfg tableau untilSaturation st))
              = passesStarted st + 1)"
proof -
  let ?cap = "if untilSaturation then ROW_BOUND_TIGHTENER_SATURATION_ITERATIONS cfg else 1"
  have cap: "maxNumberOfIterations cfg untilSaturation = ?cap"
    by (simp add: maxNumberOfIterations_def)
  have ne: "?cap \<noteq> 0" using assms by simp
  have a: "saturationRun ?cap st (examineConstraintMatrix cfg tableau untilSaturation st)"
  proof -
    obtain res st' where e: "examineConstraintMatrix cfg tableau untilSaturation st = (res, st')"
      by (cases "examineConstraintMatrix cfg tableau untilSaturation st")
    from onePass_bookkeeping_only [where cfg = cfg and onePass = "onePassOverConstraintMatrix cfg tableau",
           OF onePassOverConstraintMatrix_safe ne
           e [unfolded examineConstraintMatrix_def cap]]
    show ?thesis by (simp add: e)
  qed
  have b: "saturationRun ?cap st
             (examineImplicitInvertedBasisMatrix cfg tableau untilSaturation st)"
  proof -
    obtain res st' where e:
      "examineImplicitInvertedBasisMatrix cfg tableau untilSaturation st = (res, st')"
      by (cases "examineImplicitInvertedBasisMatrix cfg tableau untilSaturation st")
    have eq: "saturationRun ?cap st (res, st')
        = saturationRun ?cap (st\<lparr>rows := implicitInvertedBasisRows tableau\<rparr>) (res, st')"
      by (rule saturationRun_fields) simp_all
    from onePass_bookkeeping_only [where cfg = cfg and onePass = "onePassOverInvertedBasisRows cfg",
           OF onePassOverInvertedBasisRows_safe ne
           e [unfolded examineImplicitInvertedBasisMatrix_def cap]] eq
    show ?thesis unfolding e by blast
  qed
  have c: "saturationRun ?cap st (examineInvertedBasisMatrix cfg tableau untilSaturation st)"
  proof -
    let ?st2 = "st\<lparr>liveInverses := liveInverses st + 1,
                 rows := explicitInvertedBasisRows tableau (getInverseBasisMatrix tableau)\<rparr>"
    obtain res st3 where l: "saturationLoop (onePassOverInvertedBasisRows cfg) ?cap ?st2
        = (res, st3)"
      by (cases "saturationLoop (onePassOverInvertedBasisRows cfg) ?cap ?st2")
    have e: "examineInvertedBasisMatrix cfg tableau untilSaturation st
        = (res, st3\<lparr>liveInverses := liveInverses st3 - 1\<rparr>)"
      using l by (cases res) (simp_all add: examineInvertedBasisMatrix_def Let_def cap)
    have eq: "saturationRun ?cap st (res, st3\<lparr>liveInverses := liveInverses st3 - 1\<rparr>)
        = saturationRun ?cap ?st2 (res, st3)"
      by (rule saturationRun_fields) simp_all
    from onePass_bookkeeping_only [where cfg = cfg and onePass = "onePassOverInvertedBasisRows cfg",
           OF onePassOverInvertedBasisRows_safe ne l] eq
    show ?thesis unfolding e by blast
  qed
  have d: "\<not> untilSaturation \<longrightarrow>
            passesStarted (snd (examineConstraintMatrix cfg tableau untilSaturation st))
              = passesStarted st + 1 \<and>
            passesStarted (snd (examineImplicitInvertedBasisMatrix cfg tableau untilSaturation st))
              = passesStarted st + 1 \<and>
            passesStarted (snd (examineInvertedBasisMatrix cfg tableau untilSaturation st))
              = passesStarted st + 1"
  proof
    assume n: "\<not> untilSaturation"
    have one: "passesStarted (snd out) = passesStarted st + 1"
      if "saturationRun ?cap st out" for out
      using that n saturationRun_single [of st "fst out" "snd out"] by simp
    from one [OF a] one [OF b] one [OF c]
    show "passesStarted (snd (examineConstraintMatrix cfg tableau untilSaturation st))
              = passesStarted st + 1 \<and>
            passesStarted (snd (examineImplicitInvertedBasisMatrix cfg tableau untilSaturation st))
              = passesStarted st + 1 \<and>
            passesStarted (snd (examineInvertedBasisMatrix cfg tableau untilSaturation st))
              = passesStarted st + 1"
      by simp
  qed
  from a b c d show ?thesis by blast
qed

text \<open>
  With \<open>x0, x1, x2\<close> in \<open>[0, 1]\<close> and the row \<open>x0 + x1 + x2 = 3\<close> the first pass
  learns three lower bounds and the second none, so the routine stops after two of the
  twenty passes it may make; without \<open>untilSaturation\<close> it makes one.
\<close>

theorem examine_passes_bounded_witness:
  "ROW_BOUND_TIGHTENER_SATURATION_ITERATIONS (exampleConfiguration True) \<noteq> 0 \<and>
   passesStarted (snd (examineConstraintMatrix (exampleConfiguration True)
     (exampleTableau sumOfThree 3) True (exampleTightener 0 1))) = 2 \<and>
   learned (snd (examineConstraintMatrix (exampleConfiguration True)
     (exampleTableau sumOfThree 3) True (exampleTightener 0 1))) = [3, 0] \<and>
   passesStarted (snd (examineConstraintMatrix (exampleConfiguration True)
     (exampleTableau sumOfThree 3) False (exampleTightener 0 1))) = 1"
proof -
  have e: "ROW_BOUND_TIGHTENER_SATURATION_ITERATIONS (exampleConfiguration True) \<noteq> 0"
   "passesStarted (snd (examineConstraintMatrix (exampleConfiguration True)
     (exampleTableau sumOfThree 3) True (exampleTightener 0 1))) = 2"
   "learned (snd (examineConstraintMatrix (exampleConfiguration True)
     (exampleTableau sumOfThree 3) True (exampleTightener 0 1))) = [3, 0]"
   "passesStarted (exampleTightener 0 1) = 0"
    by code_simp+
  from examine_passes_bounded
         [of False "exampleConfiguration True" "exampleTightener 0 1"
             "exampleTableau sumOfThree 3"] e
  show ?thesis by simp
qed

subsection \<open>The values a row registers\<close>

lemma cell_sign_zero:
  "ciSign (invertedBasisCell cfg st entry) = ZERO \<longleftrightarrow> isZero cfg (coefficient entry)"
  by (simp add: invertedBasisCell_def Let_def)

lemma accumulateForY_sum:
  "foldl accumulateForY (a, b) (map (invertedBasisCell cfg st) es) =
     (a + sum_list (map (termLower cfg st) es), b + sum_list (map (termUpper cfg st) es))"
proof (induction es arbitrary: a b)
  case Nil
  show ?case by simp
next
  case (Cons e es)
  have "accumulateForY (a, b) (invertedBasisCell cfg st e)
      = (a + termLower cfg st e, b + termUpper cfg st e)"
    by (simp add: accumulateForY_def invertedBasisCell_def termLower_def termUpper_def Let_def
          getLowerBound_def getUpperBound_def)
  then show ?case by (simp add: Cons.IH algebra_simps)
qed

lemma subtractFromAux_sum:
  "foldl subtractFromAux (a, b) (map (invertedBasisCell cfg st) es) =
     (a - sum_list (map (termUpper cfg st) es), b - sum_list (map (termLower cfg st) es))"
proof (induction es arbitrary: a b)
  case Nil
  show ?case by simp
next
  case (Cons e es)
  have "subtractFromAux (a, b) (invertedBasisCell cfg st e)
      = (a - termUpper cfg st e, b - termLower cfg st e)"
    by (simp add: subtractFromAux_def invertedBasisCell_def termLower_def termUpper_def Let_def
          getLowerBound_def getUpperBound_def)
  then show ?case by (simp add: Cons.IH algebra_simps)
qed

lemma zip_map_self: "zip es (map f es) = map (\<lambda>e. (e, f e)) es"
  by (induction es) auto

lemma filter_keptCell:
  "filter (keptCell cfg) (map (\<lambda>e. (e, invertedBasisCell cfg st e)) es) =
     map (\<lambda>e. (e, invertedBasisCell cfg st e)) (filter (keptInvertedBasisEntry cfg) es)"
  by (induction es) (auto simp: keptCell_def keptInvertedBasisEntry_def cell_sign_zero)

lemma deriveForEntry_closed:
  assumes "\<not> isZero cfg (coefficient entry)"
  shows "deriveForEntry (ly - s - sumU) (uy - s - sumL) (invertedBasisCell cfg st entry)
           (coefficient entry) =
         (if isPositive cfg (coefficient entry)
          then ((ly - s - (sumU - termUpper cfg st entry)) / coefficient entry,
                (uy - s - (sumL - termLower cfg st entry)) / coefficient entry)
          else ((uy - s - (sumL - termLower cfg st entry)) / coefficient entry,
                (ly - s - (sumU - termUpper cfg st entry)) / coefficient entry))"
  using assms
  by (simp add: deriveForEntry_def invertedBasisCell_def termLower_def termUpper_def Let_def
        getLowerBound_def getUpperBound_def algebra_simps)

lemma tightenOnSingleInvertedBasisRow_requests:
  assumes "tightenOnSingleInvertedBasisRow cfg r st = (res, st')"
  shows "\<exists>k \<le> length (filter (keptInvertedBasisEntry cfg) (row r)).
           registered st' = registered st @ requestsForY cfg st r @
             concat (map (requestsForX cfg st r)
                       (take k (filter (keptInvertedBasisEntry cfg) (row r)))) \<and>
           (\<forall>x. res = Inr x \<longrightarrow> k = length (filter (keptInvertedBasisEntry cfg) (row r)))"
proof -
  let ?cells = "map (invertedBasisCell cfg st) (row r)"
  let ?eps = "EXPLICIT_BASIS_BOUND_TIGHTENING_ROUNDING_CONSTANT cfg"
  let ?kept = "filter (keptInvertedBasisEntry cfg) (row r)"
  have f: "foldl accumulateForY (scalar r, scalar r) ?cells
      = (derivedLowerForY cfg st r, derivedUpperForY cfg st r)"
    by (simp add: accumulateForY_sum derivedLowerForY_def derivedUpperForY_def)
  obtain k1 st1 where l:
    "registerTighterLowerBound cfg (lhs r) (derivedLowerForY cfg st r - ?eps) st = (k1, st1)"
    by (cases "registerTighterLowerBound cfg (lhs r) (derivedLowerForY cfg st r - ?eps) st")
  obtain k2 st2 where u:
    "registerTighterUpperBound cfg (lhs r) (derivedUpperForY cfg st r + ?eps) st1 = (k2, st2)"
    by (cases "registerTighterUpperBound cfg (lhs r) (derivedUpperForY cfg st r + ?eps) st1")
  have ay: "afterY cfg r st = st2" by (simp add: afterY_def l u)
  have ry: "registered st2 = registered st @ requestsForY cfg st r"
    using register_pair(1) [OF l u] by (simp add: requestsForY_def)
  show ?thesis
  proof (cases "gt cfg (getLowerBound st2 (lhs r)) (getUpperBound st2 (lhs r))")
    case True
    with assms f l u have "res = Inl InfeasibleQueryException" "st' = st2"
      by (simp_all add: tightenOnSingleInvertedBasisRow_def Let_def)
    with ry have "0 \<le> length ?kept \<and>
        registered st' = registered st @ requestsForY cfg st r @
          concat (map (requestsForX cfg st r) (take 0 ?kept)) \<and>
        (\<forall>x. res = Inr x \<longrightarrow> 0 = length ?kept)" by simp
    then show ?thesis by blast
  next
    case False
    let ?tu = "sum_list (map (termUpper cfg st) (row r))"
    let ?tl = "sum_list (map (termLower cfg st) (row r))"
    let ?auxLb = "getLowerBound st2 (lhs r) - scalar r - ?tu"
    let ?auxUb = "getUpperBound st2 (lhs r) - scalar r - ?tl"
    have a: "foldl subtractFromAux
        (getLowerBound st2 (lhs r) - scalar r, getUpperBound st2 (lhs r) - scalar r) ?cells
        = (?auxLb, ?auxUb)"
      by (simp add: subtractFromAux_sum)
    from assms f l u False a have
      "tightenInvertedBasisEntries cfg ?auxLb ?auxUb (zip (row r) ?cells) (0 + k1 + k2) st2
        = (res, st')"
      by (simp add: tightenOnSingleInvertedBasisRow_def Let_def)
    from tightenInvertedBasisEntries_result [OF this]
    obtain k where k: "k \<le> length (filter (keptCell cfg) (zip (row r) ?cells))"
      "registered st' = registered st2 @
         concat (map (invertedBasisRequest cfg ?auxLb ?auxUb)
                   (take k (filter (keptCell cfg) (zip (row r) ?cells))))"
      "\<forall>x. res = Inr x \<longrightarrow> k = length (filter (keptCell cfg) (zip (row r) ?cells))"
      by blast
    have fk: "filter (keptCell cfg) (zip (row r) ?cells)
        = map (\<lambda>e. (e, invertedBasisCell cfg st e)) ?kept"
      by (simp add: zip_map_self filter_keptCell)
    have req: "invertedBasisRequest cfg ?auxLb ?auxUb (e, invertedBasisCell cfg st e)
        = requestsForX cfg st r e" if "e \<in> set ?kept" for e
    proof -
      from that have nz: "\<not> isZero cfg (coefficient e)"
        by (simp add: keptInvertedBasisEntry_def)
      show ?thesis
        by (simp add: invertedBasisRequest_def deriveForEntry_closed [OF nz] requestsForX_def
              derivedForX_def Let_def ay getLowerBound_def getUpperBound_def)
    qed
    have "map (invertedBasisRequest cfg ?auxLb ?auxUb)
            (take k (map (\<lambda>e. (e, invertedBasisCell cfg st e)) ?kept))
        = map (requestsForX cfg st r) (take k ?kept)"
      using req by (auto simp: take_map dest: in_set_takeD)
    with k fk ry have "k \<le> length ?kept \<and>
        registered st' = registered st @ requestsForY cfg st r @
          concat (map (requestsForX cfg st r) (take k ?kept)) \<and>
        (\<forall>x. res = Inr x \<longrightarrow> k = length ?kept)" by simp
    then show ?thesis by blast
  qed
qed

lemma subtractFromAux_fold:
  "foldl subtractFromAux (a, b) cs =
     (a - sum_list (map (\<lambda>c. if ciSign c = NEGATIVE then ciTimesLb c else ciTimesUb c) cs),
      b - sum_list (map (\<lambda>c. if ciSign c = NEGATIVE then ciTimesUb c else ciTimesLb c) cs))"
  by (induction cs arbitrary: a b) (auto simp: subtractFromAux_def algebra_simps)

lemma constraintRowCells_snoc:
  "constraintRowCells cfg st (es @ [e]) =
     (constraintRowCells cfg st es)(entryIndex e := constraintRowCell cfg st e)"
  by (simp add: constraintRowCells_def)

lemma constraintRowCells_outside:
  "i \<notin> entryIndex ` set es \<Longrightarrow>
   constraintRowCells cfg st es i = \<lparr>ciSign = ZERO, ciTimesLb = 0, ciTimesUb = 0\<rparr>"
proof (induction es rule: rev_induct)
  case Nil
  show ?case by (simp add: constraintRowCells_def)
next
  case (snoc e es)
  then show ?case by (simp add: constraintRowCells_snoc)
qed

lemma constraintRowCells_lookup:
  "distinct (map entryIndex es) \<Longrightarrow> e \<in> set es \<Longrightarrow>
   constraintRowCells cfg st es (entryIndex e) = constraintRowCell cfg st e"
proof (induction es rule: rev_induct)
  case Nil
  then show ?case by simp
next
  case (snoc x es)
  show ?case
  proof (cases "e = x")
    case True
    then show ?thesis by (simp add: constraintRowCells_snoc)
  next
    case False
    with snoc.prems have e: "e \<in> set es" and d: "distinct (map entryIndex es)"
      and "entryIndex x \<notin> entryIndex ` set es" by auto
    then have "entryIndex e \<noteq> entryIndex x" by (metis image_eqI)
    with snoc.IH [OF d e] show ?thesis by (simp add: constraintRowCells_snoc)
  qed
qed

lemma sum_list_upd:
  fixes g :: "'a \<Rightarrow> real"
  shows "k < n \<Longrightarrow>
    sum_list (map (\<lambda>i. g ((f(k := v)) i)) [0..<n]) =
    sum_list (map (\<lambda>i. g (f i)) [0..<n]) - g (f k) + g v"
proof (induction n)
  case 0
  then show ?case by simp
next
  case (Suc n)
  show ?case
  proof (cases "k = n")
    case True
    have "sum_list (map (\<lambda>i. g ((f(k := v)) i)) [0..<n])
        = sum_list (map (\<lambda>i. g (f i)) [0..<n])"
      by (rule arg_cong [where f = sum_list], rule map_cong) (use True in auto)
    with True show ?thesis by simp
  next
    case False
    with Suc.prems have "k < n" by simp
    from Suc.IH [OF this] False show ?thesis by simp
  qed
qed

lemma constraintRowCells_sum:
  fixes g :: "CiCell \<Rightarrow> real"
  assumes z: "g \<lparr>ciSign = ZERO, ciTimesLb = 0, ciTimesUb = 0\<rparr> = 0"
  shows "distinct (map entryIndex es) \<Longrightarrow> \<forall>e \<in> set es. entryIndex e < n \<Longrightarrow>
    sum_list (map (\<lambda>i. g (constraintRowCells cfg st es i)) [0..<n]) =
    sum_list (map (\<lambda>e. g (constraintRowCell cfg st e)) es)"
proof (induction es rule: rev_induct)
  case Nil
  show ?case by (simp add: constraintRowCells_def z)
next
  case (snoc e es)
  from snoc.prems have d: "distinct (map entryIndex es)" "entryIndex e \<notin> entryIndex ` set es"
    and b: "\<forall>e \<in> set es. entryIndex e < n" "entryIndex e < n" by auto
  note out = constraintRowCells_outside [OF d(2), of cfg st]
  have "sum_list (map (\<lambda>i. g (constraintRowCells cfg st (es @ [e]) i)) [0..<n])
      = sum_list (map (\<lambda>i. g (((constraintRowCells cfg st es)
                                     (entryIndex e := constraintRowCell cfg st e)) i)) [0..<n])"
    by (simp only: constraintRowCells_snoc)
  also have "\<dots> = sum_list (map (\<lambda>i. g (constraintRowCells cfg st es i)) [0..<n])
      - g (constraintRowCells cfg st es (entryIndex e)) + g (constraintRowCell cfg st e)"
    by (rule sum_list_upd [OF b(2)])
  also have "\<dots> = sum_list (map (\<lambda>e. g (constraintRowCell cfg st e)) es)
      + g (constraintRowCell cfg st e)"
    by (simp add: snoc.IH [OF d(1) b(1)] out z)
  finally show ?case by simp
qed

lemma constraintRowCell_terms:
  "(if ciSign (constraintRowCell cfg st e) = NEGATIVE
    then ciTimesLb (constraintRowCell cfg st e) else ciTimesUb (constraintRowCell cfg st e))
     = productUpper cfg st e"
  "(if ciSign (constraintRowCell cfg st e) = NEGATIVE
    then ciTimesUb (constraintRowCell cfg st e) else ciTimesLb (constraintRowCell cfg st e))
     = productLower cfg st e"
  by (simp_all add: constraintRowCell_def productUpper_def productLower_def Let_def
        getLowerBound_def getUpperBound_def)

lemma tightenOnSingleConstraintRow_requests:
  assumes run: "tightenOnSingleConstraintRow cfg tableau r st = (res, st')"
    and wf: "wellFormedRow tableau r"
  shows "\<exists>k \<le> length (filter (keptConstraintEntry cfg) (getSparseARow tableau r)).
           registered st' = registered st @
             concat (map (requestsForConstraintEntry cfg tableau st r)
                       (take k (filter (keptConstraintEntry cfg) (getSparseARow tableau r)))) \<and>
           (\<forall>x. res = Inr x \<longrightarrow>
              k = length (filter (keptConstraintEntry cfg) (getSparseARow tableau r)))"
proof -
  let ?row = "getSparseARow tableau r"
  let ?n = "getN tableau"
  let ?b = "getRightHandSide tableau r"
  let ?cells = "constraintRowCells cfg st ?row"
  let ?kept = "filter (keptConstraintEntry cfg) ?row"
  let ?su = "sum_list (map (productUpper cfg st) ?row)"
  let ?sl = "sum_list (map (productLower cfg st) ?row)"
  from wf have d: "distinct (map entryIndex ?row)" and b: "\<forall>e \<in> set ?row. entryIndex e < ?n"
    by (simp_all add: wellFormedRow_def)
  have su: "sum_list (map (\<lambda>c. if ciSign c = NEGATIVE then ciTimesLb c else ciTimesUb c)
                        (map ?cells [0..<?n])) = ?su"
    using constraintRowCells_sum [where g = "\<lambda>c. if ciSign c = NEGATIVE then ciTimesLb c else ciTimesUb c",
            OF _ d b, of cfg st]
    by (simp add: o_def constraintRowCell_terms)
  have sl: "sum_list (map (\<lambda>c. if ciSign c = NEGATIVE then ciTimesUb c else ciTimesLb c)
                        (map ?cells [0..<?n])) = ?sl"
    using constraintRowCells_sum [where g = "\<lambda>c. if ciSign c = NEGATIVE then ciTimesUb c else ciTimesLb c",
            OF _ d b, of cfg st]
    by (simp add: o_def constraintRowCell_terms)
  have a: "foldl subtractFromAux (?b, ?b) (map ?cells [0..<?n]) = (?b - ?su, ?b - ?sl)"
    unfolding subtractFromAux_fold su sl ..
  from run a have
    "tightenConstraintEntries cfg ?cells (?b - ?su) (?b - ?sl) ?row 0 st = (res, st')"
    by (simp add: tightenOnSingleConstraintRow_def Let_def)
  from tightenConstraintEntries_result [OF this]
  obtain k where k: "k \<le> length ?kept"
    "registered st' = registered st @
       concat (map (constraintRequest ?cells (?b - ?su) (?b - ?sl)) (take k ?kept))"
    "\<forall>x. res = Inr x \<longrightarrow> k = length ?kept"
    by blast
  have req: "constraintRequest ?cells (?b - ?su) (?b - ?sl) e
      = requestsForConstraintEntry cfg tableau st r e" if "e \<in> set ?kept" for e
  proof -
    from that have "e \<in> set ?row" by simp
    from constraintRowCells_lookup [OF d this]
    have c: "?cells (entryIndex e) = constraintRowCell cfg st e" .
    show ?thesis
      by (simp add: constraintRequest_def c deriveForEntry_def requestsForConstraintEntry_def
            derivedForConstraintEntry_def constraintRowCell_def productUpper_def
            productLower_def Let_def getLowerBound_def getUpperBound_def algebra_simps)
  qed
  have "map (constraintRequest ?cells (?b - ?su) (?b - ?sl)) (take k ?kept)
      = map (requestsForConstraintEntry cfg tableau st r) (take k ?kept)"
    using req by (auto dest: in_set_takeD)
  with k show ?thesis by auto
qed

lemma lt_threshold:
  "lt cfg x (MINIMAL_COEFFICIENT_FOR_TIGHTENING cfg) \<longleftrightarrow>
   x < MINIMAL_COEFFICIENT_FOR_TIGHTENING cfg - DEFAULT_EPSILON_FOR_COMPARISONS cfg"
  by (auto simp: lt_def gt_def isPositive_def)


subsection \<open>Crossing bounds\<close>

text \<open>Registering both bounds of one variable, and the test that follows.\<close>

lemma sameBounds_refl [simp]: "sameBounds a a"
  by (simp add: sameBounds_def)

lemma sameBounds_sym: "sameBounds a b \<Longrightarrow> sameBounds b a"
  by (simp add: sameBounds_def)

lemma sameBounds_trans: "sameBounds a b \<Longrightarrow> sameBounds b c \<Longrightarrow> sameBounds a c"
  by (simp add: sameBounds_def)

lemma crosses_sameBounds: "sameBounds a b \<Longrightarrow> crosses cfg a v = crosses cfg b v"
  by (simp add: sameBounds_def crosses_def getLowerBound_def getUpperBound_def)

lemma applyTightening_sameBounds:
  "sameBounds a b \<Longrightarrow> sameBounds (applyTightening cfg a t) (applyTightening cfg b t)"
  by (cases "tType t")
     (auto simp: sameBounds_def applyTightening_def registerTighterLowerBound_def
        registerTighterUpperBound_def Let_def)

lemma boundsAfter_sameBounds:
  "sameBounds a b \<Longrightarrow> sameBounds (boundsAfter cfg a ts) (boundsAfter cfg b ts)"
  unfolding boundsAfter_def
  by (induction ts arbitrary: a b) (simp_all add: applyTightening_sameBounds)

lemma boundsAfter_append:
  "boundsAfter cfg st (xs @ ys) = boundsAfter cfg (boundsAfter cfg st xs) ys"
  by (simp add: boundsAfter_def)

lemma testedAfterEachPair_nil [simp]: "testedAfterEachPair cfg st raised st []"
  by (simp add: testedAfterEachPair_def boundsAfter_def)

lemma testedAfterEachPair_fields:
  assumes a: "sameBounds a st" and b: "sameBounds b st'"
  shows "testedAfterEachPair cfg a raised b new = testedAfterEachPair cfg st raised st' new"
proof -
  note s = boundsAfter_sameBounds [OF a, of cfg]
  have "sameBounds b (boundsAfter cfg a new) = sameBounds st' (boundsAfter cfg st new)"
    using b s [of new] by (auto simp: sameBounds_def)
  moreover have "crosses cfg (boundsAfter cfg a ts) v = crosses cfg (boundsAfter cfg st ts) v"
    for ts v by (rule crosses_sameBounds [OF s])
  ultimately show ?thesis by (simp add: testedAfterEachPair_def)
qed

lemma testedAfterEachPair_bookkeeping [simp]:
  "testedAfterEachPair cfg (st\<lparr>passesStarted := n\<rparr>) raised st' new
     = testedAfterEachPair cfg st raised st' new"
  "testedAfterEachPair cfg (st\<lparr>rows := rs\<rparr>) raised st' new
     = testedAfterEachPair cfg st raised st' new"
  "testedAfterEachPair cfg (st\<lparr>liveInverses := k\<rparr>) raised st' new
     = testedAfterEachPair cfg st raised st' new"
  "testedAfterEachPair cfg st raised (st'\<lparr>learned := l\<rparr>) new
     = testedAfterEachPair cfg st raised st' new"
  "testedAfterEachPair cfg st raised (st'\<lparr>liveInverses := k\<rparr>) new
     = testedAfterEachPair cfg st raised st' new"
  by (rule testedAfterEachPair_fields; simp add: sameBounds_def)+

lemma testedAfterEachPair_pair:
  assumes l: "registerTighterLowerBound cfg v lo st = (k1, st1)"
    and u: "registerTighterUpperBound cfg v hi st1 = (k2, st2)"
  shows "testedAfterEachPair cfg st (gt cfg (getLowerBound st2 v) (getUpperBound st2 v)) st2
           [Tightening v lo LB, Tightening v hi UB]"
proof -
  have b: "boundsAfter cfg st [Tightening v lo LB, Tightening v hi UB] = st2"
    by (simp add: boundsAfter_def applyTightening_def l u)
  have "crosses cfg (boundsAfter cfg st (take (2 * n) [Tightening v lo LB, Tightening v hi UB]))
          (tVariable ([Tightening v lo LB, Tightening v hi UB] ! (2 * n - 1)))
        = (2 * n = length [Tightening v lo LB, Tightening v hi UB] \<and>
           gt cfg (getLowerBound st2 v) (getUpperBound st2 v))"
    if "0 < n \<and> 2 * n \<le> length [Tightening v lo LB, Tightening v hi UB]" for n
  proof -
    from that have "n = 1" by simp
    then show ?thesis using b by (simp add: crosses_def)
  qed
  then show ?thesis unfolding testedAfterEachPair_def using b by simp
qed

lemma testedAfterEachPair_trans:
  assumes a: "testedAfterEachPair cfg st False st1 new1"
    and b: "testedAfterEachPair cfg st1 raised st2 new2"
    and ne: "raised \<Longrightarrow> new2 \<noteq> []"
  shows "testedAfterEachPair cfg st raised st2 (new1 @ new2)"
proof -
  from a have a1: "sameBounds st1 (boundsAfter cfg st new1)" and a2: "even (length new1)"
    and a3: "\<And>n. 0 < n \<Longrightarrow> 2 * n \<le> length new1 \<Longrightarrow>
               \<not> crosses cfg (boundsAfter cfg st (take (2 * n) new1)) (tVariable (new1 ! (2 * n - 1)))"
    by (simp_all add: testedAfterEachPair_def)
  from b have b1: "sameBounds st2 (boundsAfter cfg st1 new2)" and b2: "even (length new2)"
    and b3: "\<And>n. 0 < n \<Longrightarrow> 2 * n \<le> length new2 \<Longrightarrow>
               crosses cfg (boundsAfter cfg st1 (take (2 * n) new2)) (tVariable (new2 ! (2 * n - 1)))
                 = (2 * n = length new2 \<and> raised)"
    by (simp_all add: testedAfterEachPair_def)
  note s = boundsAfter_sameBounds [OF a1, of cfg]
  have e: "sameBounds st2 (boundsAfter cfg st (new1 @ new2))"
    using b1 s [of new2] by (simp add: boundsAfter_append sameBounds_def)
  have c: "crosses cfg (boundsAfter cfg st (take (2 * n) (new1 @ new2)))
             (tVariable ((new1 @ new2) ! (2 * n - 1)))
           = (2 * n = length (new1 @ new2) \<and> raised)"
    if n: "0 < n \<and> 2 * n \<le> length (new1 @ new2)" for n
  proof (cases "2 * n \<le> length new1")
    case True
    with n have i: "2 * n - 1 < length new1" by simp
    from True have "take (2 * n) (new1 @ new2) = take (2 * n) new1" by simp
    moreover from i have "(new1 @ new2) ! (2 * n - 1) = new1 ! (2 * n - 1)"
      by (simp add: nth_append)
    moreover have "\<not> (2 * n = length (new1 @ new2) \<and> raised)"
      using True ne by auto
    ultimately show ?thesis using a3 [of n] n True by simp
  next
    case False
    from a2 obtain k where k: "length new1 = 2 * k" by (auto elim: evenE)
    define m where "m = n - k"
    from False k have m: "0 < m" "2 * n = length new1 + 2 * m" by (simp_all add: m_def)
    with n have m2: "2 * m \<le> length new2" by simp
    from m have "take (2 * n) (new1 @ new2) = new1 @ take (2 * m) new2" by simp
    then have "boundsAfter cfg st (take (2 * n) (new1 @ new2))
        = boundsAfter cfg (boundsAfter cfg st new1) (take (2 * m) new2)"
      by (simp add: boundsAfter_append)
    moreover have "(new1 @ new2) ! (2 * n - 1) = new2 ! (2 * m - 1)"
    proof -
      from m have "2 * n - 1 = length new1 + (2 * m - 1)" by simp
      then show ?thesis by (simp only: nth_append_length_plus)
    qed
    moreover have "crosses cfg (boundsAfter cfg (boundsAfter cfg st new1) (take (2 * m) new2)) w
        = crosses cfg (boundsAfter cfg st1 (take (2 * m) new2)) w" for w
      by (rule crosses_sameBounds [OF sameBounds_sym [OF s]])
    ultimately show ?thesis using b3 [OF m(1) m2] m(2) by simp
  qed
  from e a2 b2 c show ?thesis by (simp add: testedAfterEachPair_def)
qed

lemma checkedRun_refl [simp]: "checkedRun cfg st (Inr x) st []"
  by (simp add: checkedRun_def)

lemma checkedRun_trans:
  assumes a: "checkedRun cfg st (Inr x) st1 new1" and b: "checkedRun cfg st1 res st2 new2"
  shows "checkedRun cfg st res st2 (new1 @ new2)"
proof -
  from a have a1: "registered st1 = registered st @ new1"
    and a2: "\<And>v. v \<notin> tVariable ` set new1 \<Longrightarrow>
               lowerBounds st1 v = lowerBounds st v \<and> upperBounds st1 v = upperBounds st v"
    and a3: "\<And>v. v \<in> tVariable ` set new1 \<Longrightarrow> \<not> crosses cfg st1 v"
    by (auto simp: checkedRun_def)
  from b have b1: "registered st2 = registered st1 @ new2"
    and b2: "\<And>v. v \<notin> tVariable ` set new2 \<Longrightarrow>
               lowerBounds st2 v = lowerBounds st1 v \<and> upperBounds st2 v = upperBounds st1 v"
    by (simp_all add: checkedRun_def)
  have keep: "\<not> crosses cfg st2 v" if "v \<in> tVariable ` set new1" "v \<notin> tVariable ` set new2" for v
    using a3 [OF that(1)] b2 [OF that(2)]
    by (simp add: crosses_def getLowerBound_def getUpperBound_def)
  have r: "registered st2 = registered st @ new1 @ new2" using a1 b1 by simp
  have "res = Inl InfeasibleQueryException \<Longrightarrow> new2 \<noteq> []"
    using b by (auto simp: checkedRun_def)
  moreover from a have "testedAfterEachPair cfg st False st1 new1"
    by (simp add: checkedRun_def)
  moreover from b have "testedAfterEachPair cfg st1 (res = Inl InfeasibleQueryException) st2 new2"
    by (simp add: checkedRun_def)
  ultimately have
    tp: "testedAfterEachPair cfg st (res = Inl InfeasibleQueryException) st2 (new1 @ new2)"
    using testedAfterEachPair_trans by blast
  have m: "0 \<le> DEFAULT_EPSILON_FOR_COMPARISONS cfg \<longrightarrow>
      (\<forall>v. lowerBounds st v \<le> lowerBounds st2 v \<and> upperBounds st2 v \<le> upperBounds st v)"
  proof (intro impI allI)
    fix v assume "0 \<le> DEFAULT_EPSILON_FOR_COMPARISONS cfg"
    with a b have "lowerBounds st v \<le> lowerBounds st1 v \<and> upperBounds st1 v \<le> upperBounds st v"
      "lowerBounds st1 v \<le> lowerBounds st2 v \<and> upperBounds st2 v \<le> upperBounds st1 v"
      by (simp_all add: checkedRun_def)
    then show "lowerBounds st v \<le> lowerBounds st2 v \<and> upperBounds st2 v \<le> upperBounds st v"
      by simp
  qed
  have f: "\<forall>v. v \<notin> tVariable ` set (new1 @ new2) \<longrightarrow>
      lowerBounds st2 v = lowerBounds st v \<and> upperBounds st2 v = upperBounds st v"
    using a2 b2 by (simp add: image_Un)
  show ?thesis
  proof (cases res)
    case (Inr y)
    with b have "\<And>v. v \<in> tVariable ` set new2 \<Longrightarrow> \<not> crosses cfg st2 v"
      by (auto simp: checkedRun_def)
    with keep have "\<forall>v \<in> tVariable ` set (new1 @ new2). \<not> crosses cfg st2 v"
      by (auto simp: image_Un)
    with r f m tp Inr show ?thesis by (simp add: checkedRun_def)
  next
    case (Inl e)
    with b have e: "e = InfeasibleQueryException" and n: "new2 \<noteq> []"
      and c: "crosses cfg st2 (tVariable (last new2))"
      and o: "\<And>v. v \<in> tVariable ` set new2 \<Longrightarrow> v \<noteq> tVariable (last new2) \<Longrightarrow>
                \<not> crosses cfg st2 v"
      by (auto simp: checkedRun_def)
    from n have l: "last (new1 @ new2) = last new2" by simp
    have "\<forall>v \<in> tVariable ` set (new1 @ new2). v \<noteq> tVariable (last new2) \<longrightarrow>
        \<not> crosses cfg st2 v"
      using keep o by (auto simp: image_Un)
    with r f m tp Inl e n c l show ?thesis by (simp add: checkedRun_def)
  qed
qed

lemma checkedRun_fields:
  "registered a = registered st \<Longrightarrow> lowerBounds a = lowerBounds st \<Longrightarrow>
   upperBounds a = upperBounds st \<Longrightarrow> registered b = registered st' \<Longrightarrow>
   lowerBounds b = lowerBounds st' \<Longrightarrow> upperBounds b = upperBounds st' \<Longrightarrow>
   checkedRun cfg a res b new = checkedRun cfg st res st' new"
  by (cases res)
     (simp_all add: checkedRun_def crosses_def getLowerBound_def getUpperBound_def
        testedAfterEachPair_fields [of a st b st'] sameBounds_def)

lemma checkedRun_bookkeeping [simp]:
  "checkedRun cfg (st\<lparr>passesStarted := n\<rparr>) res st' new = checkedRun cfg st res st' new"
  "checkedRun cfg (st\<lparr>rows := rs\<rparr>) res st' new = checkedRun cfg st res st' new"
  "checkedRun cfg (st\<lparr>liveInverses := k\<rparr>) res st' new = checkedRun cfg st res st' new"
  "checkedRun cfg st res (st'\<lparr>learned := l\<rparr>) new = checkedRun cfg st res st' new"
  "checkedRun cfg st res (st'\<lparr>liveInverses := k\<rparr>) new = checkedRun cfg st res st' new"
  by (cases res; simp add: checkedRun_def crosses_def getLowerBound_def getUpperBound_def)+

lemma checkedRun_result:
  "checkedRun cfg st (Inl e :: error + 'a) st' new \<Longrightarrow>
   checkedRun cfg st (Inl e :: error + 'b) st' new"
  by (auto simp: checkedRun_def)

lemma registerTighterLowerBound_tightens:
  "registerTighterLowerBound cfg v x st = (k, st1) \<Longrightarrow>
   0 \<le> DEFAULT_EPSILON_FOR_COMPARISONS cfg \<Longrightarrow> lowerBounds st w \<le> lowerBounds st1 w"
  by (auto simp: registerTighterLowerBound_def Let_def gt_def isPositive_def split: if_splits)

lemma registerTighterUpperBound_tightens:
  "registerTighterUpperBound cfg v x st = (k, st1) \<Longrightarrow>
   0 \<le> DEFAULT_EPSILON_FOR_COMPARISONS cfg \<Longrightarrow> upperBounds st1 w \<le> upperBounds st w"
  by (auto simp: registerTighterUpperBound_def Let_def lt_def gt_def isPositive_def
        split: if_splits)

lemma register_pair_checked:
  assumes l: "registerTighterLowerBound cfg v lo st = (k1, st1)"
    and u: "registerTighterUpperBound cfg v hi st1 = (k2, st2)"
  shows "gt cfg (getLowerBound st2 v) (getUpperBound st2 v) \<Longrightarrow>
           checkedRun cfg st (Inl InfeasibleQueryException) st2
             [Tightening v lo LB, Tightening v hi UB]"
    and "\<not> gt cfg (getLowerBound st2 v) (getUpperBound st2 v) \<Longrightarrow>
           checkedRun cfg st (Inr x) st2 [Tightening v lo LB, Tightening v hi UB]"
proof -
  note a = registerTighterLowerBound_effect [OF l]
  note b = registerTighterUpperBound_effect [OF u]
  have r: "registered st2 = registered st @ [Tightening v lo LB, Tightening v hi UB]"
    using a b by simp
  have f: "\<forall>w. w \<notin> tVariable ` set [Tightening v lo LB, Tightening v hi UB] \<longrightarrow>
      lowerBounds st2 w = lowerBounds st w \<and> upperBounds st2 w = upperBounds st w"
    using a b by simp
  have m: "0 \<le> DEFAULT_EPSILON_FOR_COMPARISONS cfg \<longrightarrow>
      (\<forall>w. lowerBounds st w \<le> lowerBounds st2 w \<and> upperBounds st2 w \<le> upperBounds st w)"
    using registerTighterLowerBound_tightens [OF l] registerTighterUpperBound_tightens [OF u] a b
    by simp
  note tp = testedAfterEachPair_pair [OF l u]
  show "gt cfg (getLowerBound st2 v) (getUpperBound st2 v) \<Longrightarrow>
           checkedRun cfg st (Inl InfeasibleQueryException) st2
             [Tightening v lo LB, Tightening v hi UB]"
    using r f m tp by (simp add: checkedRun_def crosses_def)
  show "\<not> gt cfg (getLowerBound st2 v) (getUpperBound st2 v) \<Longrightarrow>
           checkedRun cfg st (Inr x) st2 [Tightening v lo LB, Tightening v hi UB]"
    using r f m tp by (simp add: checkedRun_def crosses_def)
qed

lemma tightenInvertedBasisEntries_checked:
  "tightenInvertedBasisEntries cfg auxLb auxUb es result st = (res, st') \<Longrightarrow>
   \<exists>new. checkedRun cfg st res st' new"
proof (induction es arbitrary: result st)
  case Nil
  then have "checkedRun cfg st res st' []" by auto
  then show ?case ..
next
  case (Cons p es)
  obtain entry cell where p: "p = (entry, cell)" by (cases p)
  show ?case
  proof (cases "keptCell cfg p")
    case False
    with Cons.prems p have "tightenInvertedBasisEntries cfg auxLb auxUb es result st = (res, st')"
      by (simp add: keptCell_def)
    from Cons.IH [OF this] show ?thesis .
  next
    case True
    obtain lowerBound upperBound where d:
      "deriveForEntry auxLb auxUb cell (coefficient entry) = (lowerBound, upperBound)"
      by (cases "deriveForEntry auxLb auxUb cell (coefficient entry)")
    let ?lo = "lowerBound - EXPLICIT_BASIS_BOUND_TIGHTENING_ROUNDING_CONSTANT cfg"
    let ?hi = "upperBound + EXPLICIT_BASIS_BOUND_TIGHTENING_ROUNDING_CONSTANT cfg"
    obtain k1 st1 where l: "registerTighterLowerBound cfg (var entry) ?lo st = (k1, st1)"
      by (cases "registerTighterLowerBound cfg (var entry) ?lo st")
    obtain k2 st2 where u: "registerTighterUpperBound cfg (var entry) ?hi st1 = (k2, st2)"
      by (cases "registerTighterUpperBound cfg (var entry) ?hi st1")
    note rp = register_pair_checked [OF l u]
    show ?thesis
    proof (cases "gt cfg (getLowerBound st2 (var entry)) (getUpperBound st2 (var entry))")
      case gtT: True
      with Cons.prems p True d l u have r: "res = Inl InfeasibleQueryException" "st' = st2"
        by (simp_all add: Let_def keptCell_def)
      from rp(1) [OF gtT] r show ?thesis by blast
    next
      case ngt: False
      with Cons.prems p True d l u have
        "tightenInvertedBasisEntries cfg auxLb auxUb es (result + k1 + k2) st2 = (res, st')"
        by (simp add: Let_def keptCell_def)
      from Cons.IH [OF this] obtain new where "checkedRun cfg st2 res st' new" by blast
      from checkedRun_trans [OF rp(2) [OF ngt] this] show ?thesis by blast
    qed
  qed
qed

lemma tightenConstraintEntries_checked:
  "tightenConstraintEntries cfg cells auxLb auxUb es result st = (res, st') \<Longrightarrow>
   \<exists>new. checkedRun cfg st res st' new"
proof (induction es arbitrary: result st)
  case Nil
  then have "checkedRun cfg st res st' []" by auto
  then show ?case ..
next
  case (Cons entry es)
  show ?case
  proof (cases "keptConstraintEntry cfg entry")
    case False
    with Cons.prems have
      "tightenConstraintEntries cfg cells auxLb auxUb es result st = (res, st')"
      by (simp add: keptConstraintEntry_def Let_def)
    from Cons.IH [OF this] show ?thesis .
  next
    case True
    obtain lowerBound upperBound where d:
      "deriveForEntry auxLb auxUb (cells (entryIndex entry)) (entryValue entry)
         = (lowerBound, upperBound)"
      by (cases "deriveForEntry auxLb auxUb (cells (entryIndex entry)) (entryValue entry)")
    obtain k1 st1 where l:
      "registerTighterLowerBound cfg (entryIndex entry) lowerBound st = (k1, st1)"
      by (cases "registerTighterLowerBound cfg (entryIndex entry) lowerBound st")
    obtain k2 st2 where u:
      "registerTighterUpperBound cfg (entryIndex entry) upperBound st1 = (k2, st2)"
      by (cases "registerTighterUpperBound cfg (entryIndex entry) upperBound st1")
    note rp = register_pair_checked [OF l u]
    show ?thesis
    proof (cases "gt cfg (getLowerBound st2 (entryIndex entry))
                    (getUpperBound st2 (entryIndex entry))")
      case gtT: True
      with Cons.prems True d l u have r: "res = Inl InfeasibleQueryException" "st' = st2"
        by (simp_all add: Let_def keptConstraintEntry_def)
      from rp(1) [OF gtT] r show ?thesis by blast
    next
      case ngt: False
      with Cons.prems True d l u have
        "tightenConstraintEntries cfg cells auxLb auxUb es (result + k1 + k2) st2 = (res, st')"
        by (simp add: Let_def keptConstraintEntry_def)
      from Cons.IH [OF this] obtain new where "checkedRun cfg st2 res st' new" by blast
      from checkedRun_trans [OF rp(2) [OF ngt] this] show ?thesis by blast
    qed
  qed
qed

lemma tightenOnSingleConstraintRow_checked:
  "tightenOnSingleConstraintRow cfg tableau r st = (res, st') \<Longrightarrow>
   \<exists>new. checkedRun cfg st res st' new"
  by (auto simp: tightenOnSingleConstraintRow_def Let_def split: prod.splits
        dest!: tightenConstraintEntries_checked)

lemma tightenOnSingleInvertedBasisRow_checked:
  assumes "tightenOnSingleInvertedBasisRow cfg r st = (res, st')"
  shows "\<exists>new. checkedRun cfg st res st' new"
proof -
  let ?cells = "map (invertedBasisCell cfg st) (row r)"
  obtain lowerBound upperBound where f:
    "foldl accumulateForY (scalar r, scalar r) ?cells = (lowerBound, upperBound)"
    by (cases "foldl accumulateForY (scalar r, scalar r) ?cells")
  let ?lo = "lowerBound - EXPLICIT_BASIS_BOUND_TIGHTENING_ROUNDING_CONSTANT cfg"
  let ?hi = "upperBound + EXPLICIT_BASIS_BOUND_TIGHTENING_ROUNDING_CONSTANT cfg"
  obtain k1 st1 where l: "registerTighterLowerBound cfg (lhs r) ?lo st = (k1, st1)"
    by (cases "registerTighterLowerBound cfg (lhs r) ?lo st")
  obtain k2 st2 where u: "registerTighterUpperBound cfg (lhs r) ?hi st1 = (k2, st2)"
    by (cases "registerTighterUpperBound cfg (lhs r) ?hi st1")
  note rp = register_pair_checked [OF l u]
  show ?thesis
  proof (cases "gt cfg (getLowerBound st2 (lhs r)) (getUpperBound st2 (lhs r))")
    case True
    with assms f l u have "res = Inl InfeasibleQueryException" "st' = st2"
      by (simp_all add: tightenOnSingleInvertedBasisRow_def Let_def)
    with rp(1) [OF True] show ?thesis by blast
  next
    case False
    obtain auxLb auxUb where a: "foldl subtractFromAux
        (getLowerBound st2 (lhs r) - scalar r, getUpperBound st2 (lhs r) - scalar r) ?cells
        = (auxLb, auxUb)"
      by (cases "foldl subtractFromAux
        (getLowerBound st2 (lhs r) - scalar r, getUpperBound st2 (lhs r) - scalar r) ?cells")
    from assms f l u False a have
      "tightenInvertedBasisEntries cfg auxLb auxUb (zip (row r) ?cells) (0 + k1 + k2) st2
        = (res, st')"
      by (simp add: tightenOnSingleInvertedBasisRow_def Let_def)
    from tightenInvertedBasisEntries_checked [OF this]
    obtain new where "checkedRun cfg st2 res st' new" by blast
    from checkedRun_trans [OF rp(2) [OF False] this] show ?thesis by blast
  qed
qed

lemma passOverRows_checked:
  "passOverRows cfg rs newBounds st = (res, st') \<Longrightarrow> \<exists>new. checkedRun cfg st res st' new"
proof (induction rs arbitrary: newBounds st)
  case Nil
  then have "checkedRun cfg st res st' []" by auto
  then show ?case ..
next
  case (Cons r rs)
  obtain res1 st1 where t: "tightenOnSingleInvertedBasisRow cfg r st = (res1, st1)"
    by (cases "tightenOnSingleInvertedBasisRow cfg r st")
  from tightenOnSingleInvertedBasisRow_checked [OF t]
  obtain new1 where c: "checkedRun cfg st res1 st1 new1" by blast
  show ?case
  proof (cases res1)
    case (Inl e)
    with Cons.prems t have "res = Inl e" "st' = st1" by simp_all
    with c Inl show ?thesis using checkedRun_result by blast
  next
    case (Inr k)
    with Cons.prems t have "passOverRows cfg rs (newBounds + k) st1 = (res, st')" by simp
    from Cons.IH [OF this] obtain new2 where "checkedRun cfg st1 res st' new2" by blast
    from checkedRun_trans [OF c [unfolded Inr] this] show ?thesis by blast
  qed
qed

lemma passOverConstraintRows_checked:
  "passOverConstraintRows cfg tableau rs result st = (res, st') \<Longrightarrow>
   \<exists>new. checkedRun cfg st res st' new"
proof (induction rs arbitrary: result st)
  case Nil
  then have "checkedRun cfg st res st' []" by auto
  then show ?case ..
next
  case (Cons r rs)
  obtain res1 st1 where t: "tightenOnSingleConstraintRow cfg tableau r st = (res1, st1)"
    by (cases "tightenOnSingleConstraintRow cfg tableau r st")
  from tightenOnSingleConstraintRow_checked [OF t]
  obtain new1 where c: "checkedRun cfg st res1 st1 new1" by blast
  show ?case
  proof (cases res1)
    case (Inl e)
    with Cons.prems t have "res = Inl e" "st' = st1" by simp_all
    with c Inl show ?thesis using checkedRun_result by blast
  next
    case (Inr k)
    with Cons.prems t have "passOverConstraintRows cfg tableau rs (result + k) st1 = (res, st')"
      by simp
    from Cons.IH [OF this] obtain new2 where "checkedRun cfg st1 res st' new2" by blast
    from checkedRun_trans [OF c [unfolded Inr] this] show ?thesis by blast
  qed
qed

lemma saturationLoop_checked:
  "(\<And>s r s'. onePass s = (r, s') \<Longrightarrow> \<exists>new. checkedRun cfg s r s' new) \<Longrightarrow>
   saturationLoop onePass cap st = (res, st') \<Longrightarrow>
   \<exists>new. checkedRun cfg st res st' new"
proof (induction onePass cap st arbitrary: res st' rule: saturationLoop.induct)
  case (1 onePass cap st)
  let ?st0 = "st\<lparr>passesStarted := passesStarted st + 1\<rparr>"
  obtain r1 st1 where p: "onePass ?st0 = (r1, st1)" by (cases "onePass ?st0")
  from "1.prems"(1) [OF p] obtain new1 where "checkedRun cfg ?st0 r1 st1 new1" by blast
  then have c1: "checkedRun cfg st r1 st1 new1" by simp
  show ?case
  proof (cases r1)
    case (Inl e)
    with "1.prems"(2) p have r: "res = Inl e" "st' = st1"
      by (simp_all add: saturationLoop.simps [of onePass cap st])
    with c1 Inl show ?thesis using checkedRun_result by blast
  next
    case (Inr b)
    define st2 where "st2 = st1\<lparr>learned := learned st1 @ [b]\<rparr>"
    define remaining where "remaining = cap - 1"
    from c1 Inr have c2: "checkedRun cfg st (Inr b) st2 new1" by (simp add: st2_def)
    show ?thesis
    proof (cases "remaining \<noteq> 0 \<and> 0 < b")
      case False
      with "1.prems"(2) p Inr have r: "res = Inr ()" "st' = st2"
        by (auto simp: saturationLoop.simps [of onePass cap st] Let_def st2_def remaining_def
              split: if_splits)
      from c2 have "checkedRun cfg st (Inr ()) st2 new1" by (simp add: checkedRun_def)
      with r show ?thesis by blast
    next
      case True
      with "1.prems"(2) p Inr have rec: "saturationLoop onePass remaining st2 = (res, st')"
        by (simp add: saturationLoop.simps [of onePass cap st] Let_def st2_def remaining_def)
      from "1.IH" [OF p [symmetric] Inr st2_def remaining_def True "1.prems"(1) rec]
      obtain new2 where "checkedRun cfg st2 res st' new2" by blast
      from checkedRun_trans [OF c2 this] show ?thesis by blast
    qed
  qed
qed

text \<open>The variables that the rows, the passes and the saturation loop register.\<close>

lemma checkedRun_touched:
  "checkedRun cfg st res st' new \<Longrightarrow> touchedVariables st st' = map tVariable new"
  by (simp add: checkedRun_def touchedVariables_def)

lemma touchedVariables_trans:
  "checkedRun cfg st r1 st1 new1 \<Longrightarrow> checkedRun cfg st1 r2 st2 new2 \<Longrightarrow>
   touchedVariables st st2 = touchedVariables st st1 @ touchedVariables st1 st2"
  by (simp add: checkedRun_def touchedVariables_def)

lemma tightenOnSingleInvertedBasisRow_touched:
  "\<exists>k \<le> length (filter (keptInvertedBasisEntry cfg) (row r)).
      touchedVariables st (snd (tightenOnSingleInvertedBasisRow cfg r st))
        = [lhs r, lhs r] @
          concat (map (\<lambda>e. [var e, var e]) (take k (filter (keptInvertedBasisEntry cfg) (row r)))) \<and>
      (\<forall>x. fst (tightenOnSingleInvertedBasisRow cfg r st) = Inr x \<longrightarrow>
           k = length (filter (keptInvertedBasisEntry cfg) (row r)))"
proof -
  obtain res st' where t: "tightenOnSingleInvertedBasisRow cfg r st = (res, st')"
    by (cases "tightenOnSingleInvertedBasisRow cfg r st")
  from tightenOnSingleInvertedBasisRow_requests [OF t] obtain k where
    k: "k \<le> length (filter (keptInvertedBasisEntry cfg) (row r))"
    "registered st' = registered st @ requestsForY cfg st r @
       concat (map (requestsForX cfg st r) (take k (filter (keptInvertedBasisEntry cfg) (row r))))"
    "\<forall>x. res = Inr x \<longrightarrow> k = length (filter (keptInvertedBasisEntry cfg) (row r))"
    by blast
  have "map tVariable (concat (map (requestsForX cfg st r) es))
      = concat (map (\<lambda>e. [var e, var e]) es)" for es
    by (induction es) (simp_all add: requestsForX_def)
  with k(2) have "touchedVariables st st'
      = [lhs r, lhs r] @
        concat (map (\<lambda>e. [var e, var e]) (take k (filter (keptInvertedBasisEntry cfg) (row r))))"
    by (simp add: requestsForY_def touchedVariables_def)
  with k(1,3) show ?thesis unfolding t by auto
qed

lemma tightenOnSingleConstraintRow_touched:
  "\<exists>k \<le> length (filter (keptConstraintEntry cfg) (getSparseARow tableau i)).
      touchedVariables st (snd (tightenOnSingleConstraintRow cfg tableau i st))
        = concat (map (\<lambda>e. [entryIndex e, entryIndex e])
                    (take k (filter (keptConstraintEntry cfg) (getSparseARow tableau i)))) \<and>
      (\<forall>x. fst (tightenOnSingleConstraintRow cfg tableau i st) = Inr x \<longrightarrow>
           k = length (filter (keptConstraintEntry cfg) (getSparseARow tableau i)))"
proof -
  obtain res st' where t: "tightenOnSingleConstraintRow cfg tableau i st = (res, st')"
    by (cases "tightenOnSingleConstraintRow cfg tableau i st")
  obtain auxLb auxUb where a: "foldl subtractFromAux
       (getRightHandSide tableau i, getRightHandSide tableau i)
       (map (constraintRowCells cfg st (getSparseARow tableau i)) [0..<getN tableau])
     = (auxLb, auxUb)"
    by (cases "foldl subtractFromAux
       (getRightHandSide tableau i, getRightHandSide tableau i)
       (map (constraintRowCells cfg st (getSparseARow tableau i)) [0..<getN tableau])")
  from t a have "tightenConstraintEntries cfg (constraintRowCells cfg st (getSparseARow tableau i))
      auxLb auxUb (getSparseARow tableau i) 0 st = (res, st')"
    by (simp add: tightenOnSingleConstraintRow_def Let_def)
  from tightenConstraintEntries_result [OF this] obtain k where
    k: "k \<le> length (filter (keptConstraintEntry cfg) (getSparseARow tableau i))"
    "registered st' = registered st @
       concat (map (constraintRequest (constraintRowCells cfg st (getSparseARow tableau i)) auxLb auxUb)
                 (take k (filter (keptConstraintEntry cfg) (getSparseARow tableau i))))"
    "\<forall>x. res = Inr x \<longrightarrow> k = length (filter (keptConstraintEntry cfg) (getSparseARow tableau i))"
    by blast
  have "map tVariable (concat (map (constraintRequest cells auxLb auxUb) es))
      = concat (map (\<lambda>e. [entryIndex e, entryIndex e]) es)" for es cells
    by (induction es) (simp_all add: constraintRequest_def split: prod.splits)
  with k(2) have "touchedVariables st st'
      = concat (map (\<lambda>e. [entryIndex e, entryIndex e])
                  (take k (filter (keptConstraintEntry cfg) (getSparseARow tableau i))))"
    by (simp add: touchedVariables_def)
  with k(1,3) show ?thesis unfolding t by auto
qed

lemma set_concat_pairs: "set (concat (map (\<lambda>e. [f e, f e]) es)) = f ` set es"
  by (induction es) auto

lemma tightenOnSingleInvertedBasisRow_covered:
  assumes "tightenOnSingleInvertedBasisRow cfg r st = (Inr k, st')"
  shows "set (rowVariables cfg r) \<subseteq> set (touchedVariables st st')"
  using tightenOnSingleInvertedBasisRow_touched [of cfg r st] assms
  by (auto simp: rowVariables_def set_concat_pairs)

lemma tightenOnSingleConstraintRow_covered:
  assumes "tightenOnSingleConstraintRow cfg tableau i st = (Inr k, st')"
  shows "set (constraintRowVariables cfg tableau i) \<subseteq> set (touchedVariables st st')"
  using tightenOnSingleConstraintRow_touched [of cfg tableau i st] assms
  by (auto simp: constraintRowVariables_def set_concat_pairs)

lemma passOverRows_covered:
  "passOverRows cfg rs newBounds st = (Inr k, st') \<Longrightarrow>
   set (concat (map (rowVariables cfg) rs)) \<subseteq> set (touchedVariables st st')"
proof (induction rs arbitrary: newBounds st)
  case Nil
  show ?case by simp
next
  case (Cons r rs)
  obtain res1 st1 where t: "tightenOnSingleInvertedBasisRow cfg r st = (res1, st1)"
    by (cases "tightenOnSingleInvertedBasisRow cfg r st")
  show ?case
  proof (cases res1)
    case (Inl e)
    with Cons.prems t show ?thesis by simp
  next
    case (Inr k1)
    with Cons.prems t have p: "passOverRows cfg rs (newBounds + k1) st1 = (Inr k, st')" by simp
    from tightenOnSingleInvertedBasisRow_checked [OF t]
    obtain new1 where c1: "checkedRun cfg st res1 st1 new1" by blast
    from passOverRows_checked [OF p]
    obtain new2 where c2: "checkedRun cfg st1 (Inr k) st' new2" by blast
    from tightenOnSingleInvertedBasisRow_covered [OF t [unfolded Inr]] Cons.IH [OF p]
      touchedVariables_trans [OF c1 c2]
    show ?thesis by auto
  qed
qed

lemma passOverConstraintRows_covered:
  "passOverConstraintRows cfg tableau rs result st = (Inr k, st') \<Longrightarrow>
   set (concat (map (constraintRowVariables cfg tableau) rs)) \<subseteq> set (touchedVariables st st')"
proof (induction rs arbitrary: result st)
  case Nil
  show ?case by simp
next
  case (Cons r rs)
  obtain res1 st1 where t: "tightenOnSingleConstraintRow cfg tableau r st = (res1, st1)"
    by (cases "tightenOnSingleConstraintRow cfg tableau r st")
  show ?case
  proof (cases res1)
    case (Inl e)
    with Cons.prems t show ?thesis by simp
  next
    case (Inr k1)
    with Cons.prems t have p: "passOverConstraintRows cfg tableau rs (result + k1) st1 = (Inr k, st')"
      by simp
    from tightenOnSingleConstraintRow_checked [OF t]
    obtain new1 where c1: "checkedRun cfg st res1 st1 new1" by blast
    from passOverConstraintRows_checked [OF p]
    obtain new2 where c2: "checkedRun cfg st1 (Inr k) st' new2" by blast
    from tightenOnSingleConstraintRow_covered [OF t [unfolded Inr]] Cons.IH [OF p]
      touchedVariables_trans [OF c1 c2]
    show ?thesis by auto
  qed
qed

lemma saturationLoop_covered:
  assumes chk: "\<And>s r s'. onePass s = (r, s') \<Longrightarrow> \<exists>new. checkedRun cfg s r s' new"
    and cov: "\<And>k s'. onePass (st\<lparr>passesStarted := passesStarted st + 1\<rparr>) = (Inr k, s') \<Longrightarrow>
                set vars \<subseteq> set (touchedVariables st s')"
    and run: "saturationLoop onePass cap st = (Inr u, st')"
  shows "set vars \<subseteq> set (touchedVariables st st')"
proof -
  let ?st0 = "st\<lparr>passesStarted := passesStarted st + 1\<rparr>"
  obtain r1 st1 where p: "onePass ?st0 = (r1, st1)" by (cases "onePass ?st0")
  from chk [OF p] obtain new1 where "checkedRun cfg ?st0 r1 st1 new1" by blast
  then have c1: "checkedRun cfg st r1 st1 new1" by simp
  show ?thesis
  proof (cases r1)
    case (Inl e)
    with run p show ?thesis by (simp add: saturationLoop.simps [of onePass cap st])
  next
    case (Inr b)
    define st2 where "st2 = st1\<lparr>learned := learned st1 @ [b]\<rparr>"
    define remaining where "remaining = cap - 1"
    from c1 have c2: "checkedRun cfg st r1 st2 new1" by (simp add: st2_def)
    from cov [OF p [unfolded Inr]] have v1: "set vars \<subseteq> set (touchedVariables st st2)"
      by (simp add: touchedVariables_def st2_def)
    show ?thesis
    proof (cases "remaining \<noteq> 0 \<and> 0 < b")
      case False
      with run p Inr have "st' = st2"
        by (auto simp: saturationLoop.simps [of onePass cap st] Let_def st2_def remaining_def
              split: if_splits)
      with v1 show ?thesis by simp
    next
      case True
      with run p Inr have rec: "saturationLoop onePass remaining st2 = (Inr u, st')"
        by (simp add: saturationLoop.simps [of onePass cap st] Let_def st2_def remaining_def)
      from saturationLoop_checked [of onePass cfg, OF chk rec]
      obtain new2 where "checkedRun cfg st2 (Inr u) st' new2" by blast
      from touchedVariables_trans [OF c2 this] v1 show ?thesis by auto
    qed
  qed
qed

lemma crossingCheckedI:
  assumes c: "checkedRun cfg st res st' new"
    and v: "\<And>x. res = Inr x \<Longrightarrow> set vars \<subseteq> set (touchedVariables st st')"
  shows "crossingChecked cfg vars st (res, st')"
proof -
  note t = checkedRun_touched [OF c]
  from c have tp: "testedAfterEachPair cfg st (res = Inl InfeasibleQueryException) st'
      (drop (length (registered st)) (registered st'))"
    by (simp add: checkedRun_def)
  from c have r: "take (length (registered st)) (registered st') = registered st"
    and f: "\<forall>v. v \<notin> set (touchedVariables st st') \<longrightarrow>
              lowerBounds st' v = lowerBounds st v \<and> upperBounds st' v = upperBounds st v"
    and m: "0 \<le> DEFAULT_EPSILON_FOR_COMPARISONS cfg \<longrightarrow>
              (\<forall>v. lowerBounds st v \<le> lowerBounds st' v \<and> upperBounds st' v \<le> upperBounds st v)"
    by (simp_all add: checkedRun_def t)
  have stays: "crosses cfg st' w" if "0 \<le> DEFAULT_EPSILON_FOR_COMPARISONS cfg" "crosses cfg st w"
    for w
  proof -
    from m that(1) have "lowerBounds st w \<le> lowerBounds st' w" "upperBounds st' w \<le> upperBounds st w"
      by simp_all
    with that(2) show ?thesis
      by (simp add: crosses_def gt_def isPositive_def getLowerBound_def getUpperBound_def)
  qed
  show ?thesis
  proof (cases res)
    case (Inr x)
    with c have n: "\<forall>v \<in> set (touchedVariables st st'). \<not> crosses cfg st' v"
      by (simp add: checkedRun_def t)
    have "\<not> (0 \<le> DEFAULT_EPSILON_FOR_COMPARISONS cfg \<and> (\<exists>v \<in> set vars. crosses cfg st v))"
      using n v [OF Inr] stays by blast
    with n r f m tp v [OF Inr] Inr show ?thesis by (simp add: crossingChecked_def)
  next
    case (Inl e)
    with c have e: "e = InfeasibleQueryException" and n: "new \<noteq> []"
      and x: "crosses cfg st' (tVariable (last new))"
      and o: "\<forall>v \<in> tVariable ` set new. v \<noteq> tVariable (last new) \<longrightarrow> \<not> crosses cfg st' v"
      by (simp_all add: checkedRun_def)
    from n have l: "last (touchedVariables st st') = tVariable (last new)"
      by (simp add: t last_map)
    from n have mem: "tVariable (last new) \<in> set (touchedVariables st st')"
      by (simp add: t)
    from n have ne: "touchedVariables st st' \<noteq> []" by (simp add: t)
    from x mem have ex: "\<exists>v \<in> set (touchedVariables st st'). crosses cfg st' v" by blast
    from o have o': "\<forall>v \<in> set (touchedVariables st st').
        v \<noteq> last (touchedVariables st st') \<longrightarrow> \<not> crosses cfg st' v"
      using n by (simp add: t last_map)
    from r f m tp Inl e ne x l ex o' show ?thesis by (simp add: crossingChecked_def)
  qed
qed

lemma onePassOverConstraintMatrix_checked:
  "onePassOverConstraintMatrix cfg tableau s = (r, s') \<Longrightarrow> \<exists>new. checkedRun cfg s r s' new"
  unfolding onePassOverConstraintMatrix_def by (rule passOverConstraintRows_checked)

lemma onePassOverInvertedBasisRows_checked:
  "onePassOverInvertedBasisRows cfg s = (r, s') \<Longrightarrow> \<exists>new. checkedRun cfg s r s' new"
  unfolding onePassOverInvertedBasisRows_def by (rule passOverRows_checked)

lemma invertedBasisLoop_checked:
  assumes l: "saturationLoop (onePassOverInvertedBasisRows cfg) cap st0 = (res, st')"
    and s: "registered st0 = registered st" "lowerBounds st0 = lowerBounds st"
      "upperBounds st0 = upperBounds st"
  shows "crossingChecked cfg (concat (map (rowVariables cfg) (rows st0))) st (res, st')"
proof -
  from saturationLoop_checked [of "onePassOverInvertedBasisRows cfg" cfg,
         OF onePassOverInvertedBasisRows_checked l]
  obtain new where c0: "checkedRun cfg st0 res st' new" by blast
  with s have c: "checkedRun cfg st res st' new"
    by (simp add: checkedRun_fields [of st0 st st' st'])
  have t: "touchedVariables st s' = touchedVariables st0 s'" for s'
    using s(1) by (simp add: touchedVariables_def)
  have "set (concat (map (rowVariables cfg) (rows st0))) \<subseteq> set (touchedVariables st0 st')"
    if "res = Inr x" for x
  proof (rule saturationLoop_covered [of "onePassOverInvertedBasisRows cfg" cfg])
    show "\<exists>new. checkedRun cfg s r s' new" if "onePassOverInvertedBasisRows cfg s = (r, s')"
      for s r s' using that by (rule onePassOverInvertedBasisRows_checked)
    show "set (concat (map (rowVariables cfg) (rows st0))) \<subseteq> set (touchedVariables st0 s')"
      if "onePassOverInvertedBasisRows cfg (st0\<lparr>passesStarted := passesStarted st0 + 1\<rparr>)
            = (Inr k, s')" for k s'
      using passOverRows_covered [OF that [unfolded onePassOverInvertedBasisRows_def]]
      by (simp add: touchedVariables_def)
    show "saturationLoop (onePassOverInvertedBasisRows cfg) cap st0 = (Inr x, st')"
      using l that by simp
  qed
  with t have "\<And>x. res = Inr x \<Longrightarrow>
      set (concat (map (rowVariables cfg) (rows st0))) \<subseteq> set (touchedVariables st st')"
    by simp
  from crossingCheckedI [OF c this] show ?thesis .
qed

lemma crossingChecked_liveInverses:
  "crossingChecked cfg vars st (res, st'\<lparr>liveInverses := k\<rparr>) = crossingChecked cfg vars st (res, st')"
  by (cases res)
     (simp_all add: crossingChecked_def touchedVariables_def crosses_def getLowerBound_def
        getUpperBound_def)

lemma crossingChecked_raised:
  "crossingChecked cfg vars st out \<Longrightarrow> fst out = Inl e \<Longrightarrow>
   e = InfeasibleQueryException \<and>
   crosses cfg (snd out) (last (touchedVariables st (snd out)))"
  by (cases out) (simp add: crossingChecked_def Let_def)

lemma crossingChecked_returned:
  "crossingChecked cfg vars st out \<Longrightarrow> fst out = Inr x \<Longrightarrow>
   set vars \<subseteq> set (touchedVariables st (snd out)) \<and>
   (\<forall>v \<in> set (touchedVariables st (snd out)). \<not> crosses cfg (snd out) v)"
  by (cases out) (simp add: crossingChecked_def Let_def)

lemma crossingChecked_entry:
  "crossingChecked cfg vars st out \<Longrightarrow> 0 \<le> DEFAULT_EPSILON_FOR_COMPARISONS cfg \<Longrightarrow>
   v \<in> set vars \<Longrightarrow> crosses cfg st v \<Longrightarrow> fst out = Inl InfeasibleQueryException"
  by (cases out) (auto simp: crossingChecked_def Let_def)

text \<open>
  C5, as amended. Right after the two bounds derived for a variable are registered, the
  bounds of that variable are tested with \<open>FloatUtils::gt\<close>, and
  \<open>InfeasibleQueryException\<close> is raised at once when the lower bound exceeds the upper
  bound by more than the comparison tolerance. For each examine routine, for
  \<open>examinePivotRow\<close> and for the two routines that tighten on a single row: the bounds
  are registered in pairs, and after each pair the variable of the pair crosses exactly if
  the pair is the last one and the routine has raised, so the routine raises at the first
  pair that leaves its variable crossing. It ends with \<open>InfeasibleQueryException\<close>,
  and with no other exception, exactly when a variable for which it registered a bound
  ends with such a crossing; this is then the variable of the last registered bound, and
  no other registered variable crosses. A normal return has registered and tested the
  basic variable and every kept entry of every row. Variables without a registered bound keep their bounds and are not tested.
  With a tolerance that is not negative bounds only tighten, and a variable of the rows
  that crosses at entry makes the routine raise. The exception passes through the row,
  pass and examine routines unchanged, and \<open>examineInvertedBasisMatrix\<close> ends in both
  cases with as many live basis inverses as it started with: the inverse it obtained is
  deleted before the exception leaves it.
\<close>

theorem crossing_beyond_tolerance_raises_InfeasibleQuery:
  "crossingChecked cfg (concat (map (constraintRowVariables cfg tableau) [0..<getM tableau])) st
     (examineConstraintMatrix cfg tableau untilSaturation st) \<and>
   crossingChecked cfg (concat (map (rowVariables cfg) (implicitInvertedBasisRows tableau))) st
     (examineImplicitInvertedBasisMatrix cfg tableau untilSaturation st) \<and>
   crossingChecked cfg
     (concat (map (rowVariables cfg)
                (explicitInvertedBasisRows tableau (getInverseBasisMatrix tableau)))) st
     (examineInvertedBasisMatrix cfg tableau untilSaturation st) \<and>
   crossingChecked cfg (rowVariables cfg (getPivotRow tableau)) st
     (examinePivotRow cfg tableau st) \<and>
   crossingChecked cfg (rowVariables cfg r) st (tightenOnSingleInvertedBasisRow cfg r st) \<and>
   crossingChecked cfg (constraintRowVariables cfg tableau i) st
     (tightenOnSingleConstraintRow cfg tableau i st) \<and>
   liveInverses (snd (examineInvertedBasisMatrix cfg tableau untilSaturation st))
     = liveInverses st \<and>
   (crosses cfg st v \<longleftrightarrow>
      DEFAULT_EPSILON_FOR_COMPARISONS cfg < lowerBounds st v - upperBounds st v)"
proof (intro conjI)
  obtain res st' where t: "tightenOnSingleInvertedBasisRow cfg r st = (res, st')"
    by (cases "tightenOnSingleInvertedBasisRow cfg r st")
  from tightenOnSingleInvertedBasisRow_checked [OF t]
  obtain new where c: "checkedRun cfg st res st' new" by blast
  have v: "set (rowVariables cfg r) \<subseteq> set (touchedVariables st st')" if "res = Inr x" for x
    using tightenOnSingleInvertedBasisRow_covered [of cfg r st x st'] t that by simp
  from crossingCheckedI [OF c v]
  show "crossingChecked cfg (rowVariables cfg r) st (tightenOnSingleInvertedBasisRow cfg r st)"
    by (simp add: t)
next
  obtain res st' where t: "tightenOnSingleConstraintRow cfg tableau i st = (res, st')"
    by (cases "tightenOnSingleConstraintRow cfg tableau i st")
  from tightenOnSingleConstraintRow_checked [OF t]
  obtain new where c: "checkedRun cfg st res st' new" by blast
  have v: "set (constraintRowVariables cfg tableau i) \<subseteq> set (touchedVariables st st')"
    if "res = Inr x" for x
    using tightenOnSingleConstraintRow_covered [of cfg tableau i st x st'] t that by simp
  from crossingCheckedI [OF c v]
  show "crossingChecked cfg (constraintRowVariables cfg tableau i) st
     (tightenOnSingleConstraintRow cfg tableau i st)"
    by (simp add: t)
next
  let ?one = "onePassOverConstraintMatrix cfg tableau"
  let ?cap = "maxNumberOfIterations cfg untilSaturation"
  obtain res st' where e: "examineConstraintMatrix cfg tableau untilSaturation st = (res, st')"
    by (cases "examineConstraintMatrix cfg tableau untilSaturation st")
  then have l: "saturationLoop ?one ?cap st = (res, st')"
    by (simp add: examineConstraintMatrix_def)
  have chk: "\<And>s r s'. ?one s = (r, s') \<Longrightarrow> \<exists>new. checkedRun cfg s r s' new"
    by (rule onePassOverConstraintMatrix_checked)
  from saturationLoop_checked [of ?one cfg, OF chk l]
  obtain new where c: "checkedRun cfg st res st' new" by blast
  have "set (concat (map (constraintRowVariables cfg tableau) [0..<getM tableau]))
      \<subseteq> set (touchedVariables st st')" if "res = Inr x" for x
  proof (rule saturationLoop_covered [of ?one cfg])
    show "\<exists>new. checkedRun cfg s r s' new" if "?one s = (r, s')" for s r s'
      using that by (rule onePassOverConstraintMatrix_checked)
    show "set (concat (map (constraintRowVariables cfg tableau) [0..<getM tableau]))
        \<subseteq> set (touchedVariables st s')"
      if "?one (st\<lparr>passesStarted := passesStarted st + 1\<rparr>) = (Inr k, s')" for k s'
      using passOverConstraintRows_covered [OF that [unfolded onePassOverConstraintMatrix_def]]
      by (simp add: touchedVariables_def)
    show "saturationLoop ?one ?cap st = (Inr x, st')" using l that by simp
  qed
  from crossingCheckedI [OF c this]
  show "crossingChecked cfg (concat (map (constraintRowVariables cfg tableau) [0..<getM tableau]))
      st (examineConstraintMatrix cfg tableau untilSaturation st)"
    by (simp add: e)
next
  let ?st0 = "st\<lparr>rows := implicitInvertedBasisRows tableau\<rparr>"
  obtain res st' where l: "saturationLoop (onePassOverInvertedBasisRows cfg)
      (maxNumberOfIterations cfg untilSaturation) ?st0 = (res, st')"
    by (cases "saturationLoop (onePassOverInvertedBasisRows cfg)
      (maxNumberOfIterations cfg untilSaturation) ?st0")
  from invertedBasisLoop_checked [OF l, of st]
  show "crossingChecked cfg (concat (map (rowVariables cfg) (implicitInvertedBasisRows tableau)))
      st (examineImplicitInvertedBasisMatrix cfg tableau untilSaturation st)"
    by (simp add: examineImplicitInvertedBasisMatrix_def l)
next
  let ?st2 = "st\<lparr>liveInverses := liveInverses st + 1,
                 rows := explicitInvertedBasisRows tableau (getInverseBasisMatrix tableau)\<rparr>"
  obtain res st3 where l: "saturationLoop (onePassOverInvertedBasisRows cfg)
      (maxNumberOfIterations cfg untilSaturation) ?st2 = (res, st3)"
    by (cases "saturationLoop (onePassOverInvertedBasisRows cfg)
      (maxNumberOfIterations cfg untilSaturation) ?st2")
  from saturationLoop_safe [where cfg = cfg and onePass = "onePassOverInvertedBasisRows cfg",
         OF onePassOverInvertedBasisRows_safe l]
  have s: "liveInverses st3 = liveInverses st + 1" by simp
  have e: "examineInvertedBasisMatrix cfg tableau untilSaturation st
      = (res, st3\<lparr>liveInverses := liveInverses st3 - 1\<rparr>)"
    using l by (cases res) (simp_all add: examineInvertedBasisMatrix_def Let_def)
  from invertedBasisLoop_checked [OF l, of st]
  show "crossingChecked cfg
     (concat (map (rowVariables cfg)
                (explicitInvertedBasisRows tableau (getInverseBasisMatrix tableau)))) st
     (examineInvertedBasisMatrix cfg tableau untilSaturation st)"
    unfolding e by (simp add: crossingChecked_liveInverses)
  from s show "liveInverses (snd (examineInvertedBasisMatrix cfg tableau untilSaturation st))
     = liveInverses st"
    unfolding e by simp
next
  obtain res st' where t:
    "tightenOnSingleInvertedBasisRow cfg (getPivotRow tableau) st = (res, st')"
    by (cases "tightenOnSingleInvertedBasisRow cfg (getPivotRow tableau) st")
  from tightenOnSingleInvertedBasisRow_checked [OF t]
  obtain new where c: "checkedRun cfg st res st' new" by blast
  show "crossingChecked cfg (rowVariables cfg (getPivotRow tableau)) st
     (examinePivotRow cfg tableau st)"
  proof (cases res)
    case (Inl e)
    from c have "checkedRun cfg st (Inl e :: error + unit) st' new"
      unfolding Inl by (rule checkedRun_result)
    from crossingCheckedI [OF this] show ?thesis
      by (simp add: examinePivotRow_def t Inl)
  next
    case (Inr k)
    from c have c': "checkedRun cfg st (Inr ()) st' new"
      unfolding Inr by (simp add: checkedRun_def)
    from tightenOnSingleInvertedBasisRow_covered [OF t [unfolded Inr]]
    have "\<And>x. (Inr () :: error + unit) = Inr x \<Longrightarrow>
        set (rowVariables cfg (getPivotRow tableau)) \<subseteq> set (touchedVariables st st')"
      by simp
    from crossingCheckedI [OF c' this] show ?thesis
      by (simp add: examinePivotRow_def t Inr)
  qed
next
  show "crosses cfg st v \<longleftrightarrow>
      DEFAULT_EPSILON_FOR_COMPARISONS cfg < lowerBounds st v - upperBounds st v"
    by (simp add: crosses_def gt_def isPositive_def getLowerBound_def getUpperBound_def)
qed

text \<open>
  The first scenario of the spec: with \<open>x0, x1, x2\<close> in \<open>[0, 1]\<close> the row
  \<open>x0 + x1 + x2 = 3.5\<close> is infeasible. The constraint-matrix pass raises right after
  the two bounds of \<open>x0\<close>, which crosses; the pass over the explicit inverted basis
  raises too and gives its inverse back. With the bounds \<open>[5, 1]\<close>, crossing from the
  start, \<open>examinePivotRow\<close> raises. With the right-hand side 2 it returns normally,
  having registered two bounds for each of \<open>x2\<close>, \<open>x0\<close> and \<open>x1\<close>, none of
  which crosses.
\<close>

theorem crossing_beyond_tolerance_raises_InfeasibleQuery_witness:
  "fst (examineConstraintMatrix (exampleConfiguration True)
     (exampleTableau sumOfThree (7 / 2)) True (exampleTightener 0 1)) = Inl InfeasibleQueryException \<and>
   touchedVariables (exampleTightener 0 1) (snd (examineConstraintMatrix (exampleConfiguration True)
     (exampleTableau sumOfThree (7 / 2)) True (exampleTightener 0 1))) = [0, 0] \<and>
   crosses (exampleConfiguration True) (snd (examineConstraintMatrix (exampleConfiguration True)
     (exampleTableau sumOfThree (7 / 2)) True (exampleTightener 0 1))) 0 \<and>
   fst (examineInvertedBasisMatrix (exampleConfiguration True)
     (exampleTableau sumOfThree (7 / 2)) True (exampleTightener 0 1)) = Inl InfeasibleQueryException \<and>
   liveInverses (snd (examineInvertedBasisMatrix (exampleConfiguration True)
     (exampleTableau sumOfThree (7 / 2)) True (exampleTightener 0 1))) = 0 \<and>
   crosses (exampleConfiguration True) (exampleTightener 5 1) 2 \<and>
   fst (examinePivotRow (exampleConfiguration True) (exampleTableau sumOfThree 3)
     (exampleTightener 5 1)) = Inl InfeasibleQueryException \<and>
   fst (examinePivotRow (exampleConfiguration True) (exampleTableau sumOfThree 2)
     (exampleTightener 0 1)) = Inr () \<and>
   touchedVariables (exampleTightener 0 1) (snd (examinePivotRow (exampleConfiguration True)
     (exampleTableau sumOfThree 2) (exampleTightener 0 1))) = [2, 2, 0, 0, 1, 1] \<and>
   \<not> crosses (exampleConfiguration True) (snd (examinePivotRow (exampleConfiguration True)
     (exampleTableau sumOfThree 2) (exampleTightener 0 1))) 1"
proof -
  let ?cfg = "exampleConfiguration True"
  let ?A = "examineConstraintMatrix ?cfg (exampleTableau sumOfThree (7 / 2)) True
              (exampleTightener 0 1)"
  let ?P = "examinePivotRow ?cfg (exampleTableau sumOfThree 2) (exampleTightener 0 1)"
  have e: "fst ?A = Inl InfeasibleQueryException"
    "touchedVariables (exampleTightener 0 1) (snd ?A) = [0, 0]"
    "fst (examineInvertedBasisMatrix ?cfg (exampleTableau sumOfThree (7 / 2)) True
       (exampleTightener 0 1)) = Inl InfeasibleQueryException"
    "liveInverses (exampleTightener 0 1) = 0"
    "crosses ?cfg (exampleTightener 5 1) 2"
    "0 \<le> DEFAULT_EPSILON_FOR_COMPARISONS ?cfg"
    "rowVariables ?cfg (getPivotRow (exampleTableau sumOfThree 3)) = [2, 0, 1]"
    "fst ?P = Inr ()"
    "touchedVariables (exampleTightener 0 1) (snd ?P) = [2, 2, 0, 0, 1, 1]"
    by code_simp+
  note a = crossing_beyond_tolerance_raises_InfeasibleQuery
             [where cfg = ?cfg and tableau = "exampleTableau sumOfThree (7 / 2)"
                and st = "exampleTightener 0 1" and untilSaturation = True and v = 0
                and r = thresholdRow and i = 0]
  note b = crossing_beyond_tolerance_raises_InfeasibleQuery
             [where cfg = ?cfg and tableau = "exampleTableau sumOfThree 3"
                and st = "exampleTightener 5 1" and untilSaturation = True and v = 0
                and r = thresholdRow and i = 0]
  note c = crossing_beyond_tolerance_raises_InfeasibleQuery
             [where cfg = ?cfg and tableau = "exampleTableau sumOfThree 2"
                and st = "exampleTightener 0 1" and untilSaturation = True and v = 0
                and r = thresholdRow and i = 0]
  from a have "crossingChecked ?cfg
      (concat (map (constraintRowVariables ?cfg (exampleTableau sumOfThree (7 / 2)))
         [0..<getM (exampleTableau sumOfThree (7 / 2))])) (exampleTightener 0 1) ?A"
    by blast
  from crossingChecked_raised [OF this e(1)] e(2)
  have x: "crosses ?cfg (snd ?A) 0" by simp
  from a e(4) have l: "liveInverses (snd (examineInvertedBasisMatrix ?cfg
      (exampleTableau sumOfThree (7 / 2)) True (exampleTightener 0 1))) = 0"
    by simp
  from b have "crossingChecked ?cfg (rowVariables ?cfg (getPivotRow (exampleTableau sumOfThree 3)))
      (exampleTightener 5 1)
      (examinePivotRow ?cfg (exampleTableau sumOfThree 3) (exampleTightener 5 1))"
    by blast
  from crossingChecked_entry [OF this e(6) _ e(5)] e(7)
  have p: "fst (examinePivotRow ?cfg (exampleTableau sumOfThree 3) (exampleTightener 5 1))
      = Inl InfeasibleQueryException" by simp
  from c have "crossingChecked ?cfg (rowVariables ?cfg (getPivotRow (exampleTableau sumOfThree 2)))
      (exampleTightener 0 1) ?P"
    by blast
  from crossingChecked_returned [OF this e(8)] e(9)
  have n: "\<not> crosses ?cfg (snd ?P) 1" by simp
  from e x l p n show ?thesis by simp
qed

text \<open>
  The claim as stated fails: the row \<open>x0 = 1 + 5e-11\<close> of the constraint matrix, with
  \<open>x0\<close> in \<open>[0, 1]\<close>, raises the lower bound of \<open>x0\<close> above its upper bound, by
  less than the tolerance \<open>1e-10\<close>, and \<open>examineConstraintMatrix\<close> returns normally
  with these bounds.
\<close>

theorem crossing_within_tolerance_counterexample:
  "fst (examineConstraintMatrix (exampleConfiguration True)
     (exampleTableau [SparseEntry 0 1] (1 + 5 / 10 ^ 11)) True (exampleTightener 0 1)) = Inr () \<and>
   lowerBounds (snd (examineConstraintMatrix (exampleConfiguration True)
     (exampleTableau [SparseEntry 0 1] (1 + 5 / 10 ^ 11)) True (exampleTightener 0 1))) 0
     = 1 + 5 / 10 ^ 11 \<and>
   upperBounds (snd (examineConstraintMatrix (exampleConfiguration True)
     (exampleTableau [SparseEntry 0 1] (1 + 5 / 10 ^ 11)) True (exampleTightener 0 1))) 0 = 1 \<and>
   upperBounds (snd (examineConstraintMatrix (exampleConfiguration True)
     (exampleTableau [SparseEntry 0 1] (1 + 5 / 10 ^ 11)) True (exampleTightener 0 1))) 0
     < lowerBounds (snd (examineConstraintMatrix (exampleConfiguration True)
         (exampleTableau [SparseEntry 0 1] (1 + 5 / 10 ^ 11)) True (exampleTightener 0 1))) 0"
  by code_simp

text \<open>
  A variable for which nothing is registered is not tested: \<open>x2\<close> crosses from the
  start, the only row is \<open>x0 + x1 = 1\<close>, and the pass returns normally.
\<close>

lemma crossing_of_unregistered_variable_example:
  "upperBounds crossedAtEntry 2 < lowerBounds crossedAtEntry 2 \<and>
   crosses (exampleConfiguration True) crossedAtEntry 2 \<and>
   fst (examineConstraintMatrix (exampleConfiguration True)
     (exampleTableau [SparseEntry 0 1, SparseEntry 1 1] 1) True crossedAtEntry) = Inr () \<and>
   touchedVariables crossedAtEntry (snd (examineConstraintMatrix (exampleConfiguration True)
     (exampleTableau [SparseEntry 0 1, SparseEntry 1 1] 1) True crossedAtEntry)) = [0, 0, 1, 1]"
  by code_simp

subsection \<open>Entries below the threshold\<close>

text \<open>
  C2, as amended. In both passes the variables for which a row registers bounds are, in
  order, the variable of each kept entry, twice (after the basic variable, twice, in the
  inverted-basis pass): of all kept entries on a normal return, and of the kept entries up
  to the one at which \<open>InfeasibleQueryException\<close> is raised otherwise. An entry is kept
  unless \<open>FloatUtils::lt\<close> puts the absolute value of its coefficient below
  \<open>MINIMAL_COEFFICIENT_FOR_TIGHTENING\<close>, that is below the threshold by more than the
  comparison tolerance (or, in the inverted-basis pass, the coefficient is zero for
  \<open>isZero\<close>). So an entry below the threshold yields no derived bound: a variable all
  of whose entries in the row are below the threshold, and which is not the basic
  variable of the row, gets none. An entry whose coefficient is exactly at the threshold
  is kept, not skipped, given a tolerance that is not negative (and, in the inverted-basis
  pass, below the threshold).
\<close>

theorem entries_below_threshold_skipped:
  "(\<exists>k \<le> length (filter (keptInvertedBasisEntry cfg) (row r)).
      touchedVariables st (snd (tightenOnSingleInvertedBasisRow cfg r st))
        = [lhs r, lhs r] @
          concat (map (\<lambda>e. [var e, var e]) (take k (filter (keptInvertedBasisEntry cfg) (row r)))) \<and>
      (\<forall>x. fst (tightenOnSingleInvertedBasisRow cfg r st) = Inr x \<longrightarrow>
           k = length (filter (keptInvertedBasisEntry cfg) (row r)))) \<and>
   (\<exists>k \<le> length (filter (keptConstraintEntry cfg) (getSparseARow tableau i)).
      touchedVariables st (snd (tightenOnSingleConstraintRow cfg tableau i st))
        = concat (map (\<lambda>e. [entryIndex e, entryIndex e])
                    (take k (filter (keptConstraintEntry cfg) (getSparseARow tableau i)))) \<and>
      (\<forall>x. fst (tightenOnSingleConstraintRow cfg tableau i st) = Inr x \<longrightarrow>
           k = length (filter (keptConstraintEntry cfg) (getSparseARow tableau i)))) \<and>
   (keptInvertedBasisEntry cfg e \<longleftrightarrow>
      \<not> isZero cfg (coefficient e) \<and>
      \<not> lt cfg \<bar>coefficient e\<bar> (MINIMAL_COEFFICIENT_FOR_TIGHTENING cfg)) \<and>
   (keptConstraintEntry cfg e' \<longleftrightarrow>
      \<not> lt cfg \<bar>entryValue e'\<bar> (MINIMAL_COEFFICIENT_FOR_TIGHTENING cfg)) \<and>
   (lt cfg c (MINIMAL_COEFFICIENT_FOR_TIGHTENING cfg) \<longleftrightarrow>
      c < MINIMAL_COEFFICIENT_FOR_TIGHTENING cfg - DEFAULT_EPSILON_FOR_COMPARISONS cfg) \<and>
   ((\<forall>x \<in> set (row r). var x = v \<longrightarrow>
        lt cfg \<bar>coefficient x\<bar> (MINIMAL_COEFFICIENT_FOR_TIGHTENING cfg)) \<and> v \<noteq> lhs r \<longrightarrow>
      v \<notin> set (touchedVariables st (snd (tightenOnSingleInvertedBasisRow cfg r st)))) \<and>
   ((\<forall>x \<in> set (getSparseARow tableau i). entryIndex x = v \<longrightarrow>
        lt cfg \<bar>entryValue x\<bar> (MINIMAL_COEFFICIENT_FOR_TIGHTENING cfg)) \<longrightarrow>
      v \<notin> set (touchedVariables st (snd (tightenOnSingleConstraintRow cfg tableau i st)))) \<and>
   (0 \<le> DEFAULT_EPSILON_FOR_COMPARISONS cfg \<and>
    DEFAULT_EPSILON_FOR_COMPARISONS cfg < MINIMAL_COEFFICIENT_FOR_TIGHTENING cfg \<and>
    \<bar>coefficient e\<bar> = MINIMAL_COEFFICIENT_FOR_TIGHTENING cfg \<longrightarrow> keptInvertedBasisEntry cfg e) \<and>
   (0 \<le> DEFAULT_EPSILON_FOR_COMPARISONS cfg \<and>
    \<bar>entryValue e'\<bar> = MINIMAL_COEFFICIENT_FOR_TIGHTENING cfg \<longrightarrow> keptConstraintEntry cfg e')"
proof (intro conjI)
  show "\<exists>k \<le> length (filter (keptInvertedBasisEntry cfg) (row r)).
      touchedVariables st (snd (tightenOnSingleInvertedBasisRow cfg r st))
        = [lhs r, lhs r] @
          concat (map (\<lambda>e. [var e, var e]) (take k (filter (keptInvertedBasisEntry cfg) (row r)))) \<and>
      (\<forall>x. fst (tightenOnSingleInvertedBasisRow cfg r st) = Inr x \<longrightarrow>
           k = length (filter (keptInvertedBasisEntry cfg) (row r)))"
    by (rule tightenOnSingleInvertedBasisRow_touched)
next
  show "\<exists>k \<le> length (filter (keptConstraintEntry cfg) (getSparseARow tableau i)).
      touchedVariables st (snd (tightenOnSingleConstraintRow cfg tableau i st))
        = concat (map (\<lambda>e. [entryIndex e, entryIndex e])
                    (take k (filter (keptConstraintEntry cfg) (getSparseARow tableau i)))) \<and>
      (\<forall>x. fst (tightenOnSingleConstraintRow cfg tableau i st) = Inr x \<longrightarrow>
           k = length (filter (keptConstraintEntry cfg) (getSparseARow tableau i)))"
    by (rule tightenOnSingleConstraintRow_touched)
next
  show "keptInvertedBasisEntry cfg e \<longleftrightarrow>
      \<not> isZero cfg (coefficient e) \<and>
      \<not> lt cfg \<bar>coefficient e\<bar> (MINIMAL_COEFFICIENT_FOR_TIGHTENING cfg)"
    by (simp add: keptInvertedBasisEntry_def)
next
  show "keptConstraintEntry cfg e' \<longleftrightarrow>
      \<not> lt cfg \<bar>entryValue e'\<bar> (MINIMAL_COEFFICIENT_FOR_TIGHTENING cfg)"
    by (simp add: keptConstraintEntry_def)
next
  show "lt cfg c (MINIMAL_COEFFICIENT_FOR_TIGHTENING cfg) \<longleftrightarrow>
      c < MINIMAL_COEFFICIENT_FOR_TIGHTENING cfg - DEFAULT_EPSILON_FOR_COMPARISONS cfg"
    by (rule lt_threshold)
next
  show "(\<forall>x \<in> set (row r). var x = v \<longrightarrow>
        lt cfg \<bar>coefficient x\<bar> (MINIMAL_COEFFICIENT_FOR_TIGHTENING cfg)) \<and> v \<noteq> lhs r \<longrightarrow>
      v \<notin> set (touchedVariables st (snd (tightenOnSingleInvertedBasisRow cfg r st)))"
  proof (intro impI notI, elim conjE)
    assume b: "\<forall>x \<in> set (row r). var x = v \<longrightarrow>
        lt cfg \<bar>coefficient x\<bar> (MINIMAL_COEFFICIENT_FOR_TIGHTENING cfg)"
      and n: "v \<noteq> lhs r"
      and m: "v \<in> set (touchedVariables st (snd (tightenOnSingleInvertedBasisRow cfg r st)))"
    from tightenOnSingleInvertedBasisRow_touched [of cfg r st] obtain k where
      "touchedVariables st (snd (tightenOnSingleInvertedBasisRow cfg r st))
        = [lhs r, lhs r] @
          concat (map (\<lambda>e. [var e, var e]) (take k (filter (keptInvertedBasisEntry cfg) (row r))))"
      by blast
    with m n obtain x where "x \<in> set (take k (filter (keptInvertedBasisEntry cfg) (row r)))"
      "var x = v" by (auto simp: set_concat_pairs)
    then have "x \<in> set (row r)" "keptInvertedBasisEntry cfg x" "var x = v"
      by (auto dest: in_set_takeD)
    with b show False by (auto simp: keptInvertedBasisEntry_def)
  qed
next
  show "(\<forall>x \<in> set (getSparseARow tableau i). entryIndex x = v \<longrightarrow>
        lt cfg \<bar>entryValue x\<bar> (MINIMAL_COEFFICIENT_FOR_TIGHTENING cfg)) \<longrightarrow>
      v \<notin> set (touchedVariables st (snd (tightenOnSingleConstraintRow cfg tableau i st)))"
  proof (intro impI notI)
    assume b: "\<forall>x \<in> set (getSparseARow tableau i). entryIndex x = v \<longrightarrow>
        lt cfg \<bar>entryValue x\<bar> (MINIMAL_COEFFICIENT_FOR_TIGHTENING cfg)"
      and m: "v \<in> set (touchedVariables st (snd (tightenOnSingleConstraintRow cfg tableau i st)))"
    from tightenOnSingleConstraintRow_touched [of cfg tableau i st] obtain k where
      "touchedVariables st (snd (tightenOnSingleConstraintRow cfg tableau i st))
        = concat (map (\<lambda>e. [entryIndex e, entryIndex e])
                    (take k (filter (keptConstraintEntry cfg) (getSparseARow tableau i))))"
      by blast
    with m obtain x where
      "x \<in> set (take k (filter (keptConstraintEntry cfg) (getSparseARow tableau i)))"
      "entryIndex x = v" by (auto simp: set_concat_pairs)
    then have "x \<in> set (getSparseARow tableau i)" "keptConstraintEntry cfg x" "entryIndex x = v"
      by (auto dest: in_set_takeD)
    with b show False by (auto simp: keptConstraintEntry_def)
  qed
next
  show "0 \<le> DEFAULT_EPSILON_FOR_COMPARISONS cfg \<and>
    DEFAULT_EPSILON_FOR_COMPARISONS cfg < MINIMAL_COEFFICIENT_FOR_TIGHTENING cfg \<and>
    \<bar>coefficient e\<bar> = MINIMAL_COEFFICIENT_FOR_TIGHTENING cfg \<longrightarrow> keptInvertedBasisEntry cfg e"
    by (auto simp: keptInvertedBasisEntry_def lt_threshold isZero_def)
next
  show "0 \<le> DEFAULT_EPSILON_FOR_COMPARISONS cfg \<and>
    \<bar>entryValue e'\<bar> = MINIMAL_COEFFICIENT_FOR_TIGHTENING cfg \<longrightarrow> keptConstraintEntry cfg e'"
    by (simp add: keptConstraintEntry_def lt_threshold)
qed

text \<open>
  In the row \<open>0.001 x0 + 0.01 x1 = 0.01\<close> of the constraint matrix and in the row
  \<open>x2 = 0.001 x0 + 0.01 x1 + 1\<close> of the inverted basis, with the threshold 0.01, the
  entry of \<open>x0\<close> is skipped and the entry of \<open>x1\<close>, at the threshold, gets its two
  bounds. In the row \<open>x0 + x1 + x2 = 3.5\<close> with all variables in \<open>[0, 1]\<close> every
  entry is kept, the exception is raised at \<open>x0\<close>, and \<open>x1\<close> and \<open>x2\<close> get no
  bound.
\<close>

theorem entries_below_threshold_skipped_witness:
  "touchedVariables (exampleTightener 0 10) (snd (tightenOnSingleConstraintRow
     (exampleConfiguration True) (exampleTableau belowAndAtThreshold (1 / 100)) 0
     (exampleTightener 0 10))) = [1, 1] \<and>
   touchedVariables (exampleTightener 0 10) (snd (tightenOnSingleInvertedBasisRow
     (exampleConfiguration True) thresholdRow (exampleTightener 0 10))) = [2, 2, 1, 1] \<and>
   (\<exists>x. fst (tightenOnSingleConstraintRow (exampleConfiguration True)
     (exampleTableau belowAndAtThreshold (1 / 100)) 0 (exampleTightener 0 10)) = Inr x) \<and>
   (\<exists>x. fst (tightenOnSingleInvertedBasisRow (exampleConfiguration True) thresholdRow
     (exampleTightener 0 10)) = Inr x) \<and>
   0 \<notin> set (touchedVariables (exampleTightener 0 10) (snd (tightenOnSingleConstraintRow
     (exampleConfiguration True) (exampleTableau belowAndAtThreshold (1 / 100)) 0
     (exampleTightener 0 10)))) \<and>
   0 \<notin> set (touchedVariables (exampleTightener 0 10) (snd (tightenOnSingleInvertedBasisRow
     (exampleConfiguration True) thresholdRow (exampleTightener 0 10)))) \<and>
   keptConstraintEntry (exampleConfiguration True) (SparseEntry 1 (1 / 100)) \<and>
   keptInvertedBasisEntry (exampleConfiguration True) (TableauRowEntry 1 (1 / 100)) \<and>
   fst (tightenOnSingleConstraintRow (exampleConfiguration True)
     (exampleTableau sumOfThree (7 / 2)) 0 (exampleTightener 0 1)) = Inl InfeasibleQueryException \<and>
   filter (keptConstraintEntry (exampleConfiguration True)) sumOfThree = sumOfThree \<and>
   touchedVariables (exampleTightener 0 1) (snd (tightenOnSingleConstraintRow
     (exampleConfiguration True) (exampleTableau sumOfThree (7 / 2)) 0 (exampleTightener 0 1)))
     = [0, 0]"
proof -
  let ?cfg = "exampleConfiguration True"
  have e: "fst (tightenOnSingleConstraintRow ?cfg
       (exampleTableau belowAndAtThreshold (1 / 100)) 0 (exampleTightener 0 10)) = Inr 1"
    "fst (tightenOnSingleInvertedBasisRow ?cfg thresholdRow (exampleTightener 0 10)) = Inr 2"
    "touchedVariables (exampleTightener 0 10) (snd (tightenOnSingleConstraintRow
       ?cfg (exampleTableau belowAndAtThreshold (1 / 100)) 0 (exampleTightener 0 10))) = [1, 1]"
    "touchedVariables (exampleTightener 0 10) (snd (tightenOnSingleInvertedBasisRow
       ?cfg thresholdRow (exampleTightener 0 10))) = [2, 2, 1, 1]"
    "fst (tightenOnSingleConstraintRow ?cfg
       (exampleTableau sumOfThree (7 / 2)) 0 (exampleTightener 0 1)) = Inl InfeasibleQueryException"
    "filter (keptConstraintEntry ?cfg) sumOfThree = sumOfThree"
    "touchedVariables (exampleTightener 0 1) (snd (tightenOnSingleConstraintRow
       ?cfg (exampleTableau sumOfThree (7 / 2)) 0 (exampleTightener 0 1))) = [0, 0]"
    by code_simp+
  have h: "0 \<le> DEFAULT_EPSILON_FOR_COMPARISONS ?cfg"
    "DEFAULT_EPSILON_FOR_COMPARISONS ?cfg < MINIMAL_COEFFICIENT_FOR_TIGHTENING ?cfg"
    "\<bar>coefficient (TableauRowEntry 1 (1 / 100))\<bar> = MINIMAL_COEFFICIENT_FOR_TIGHTENING ?cfg"
    "\<bar>entryValue (SparseEntry 1 (1 / 100))\<bar> = MINIMAL_COEFFICIENT_FOR_TIGHTENING ?cfg"
    "\<forall>x \<in> set (row thresholdRow). var x = 0 \<longrightarrow>
       lt ?cfg \<bar>coefficient x\<bar> (MINIMAL_COEFFICIENT_FOR_TIGHTENING ?cfg)"
    "\<forall>x \<in> set (getSparseARow (exampleTableau belowAndAtThreshold (1 / 100)) 0).
       entryIndex x = 0 \<longrightarrow> lt ?cfg \<bar>entryValue x\<bar> (MINIMAL_COEFFICIENT_FOR_TIGHTENING ?cfg)"
    "(0 :: nat) \<noteq> lhs thresholdRow"
    by (simp_all add: exampleConfiguration_def thresholdRow_def exampleTableau_def
          belowAndAtThreshold_def lt_def gt_def isPositive_def)
  note t = entries_below_threshold_skipped
             [where cfg = ?cfg and r = thresholdRow and st = "exampleTightener 0 10"
                and tableau = "exampleTableau belowAndAtThreshold (1 / 100)" and i = 0
                and e = "TableauRowEntry 1 (1 / 100)" and e' = "SparseEntry 1 (1 / 100)"
                and v = 0]
  from t h have
    "0 \<notin> set (touchedVariables (exampleTightener 0 10) (snd (tightenOnSingleConstraintRow
       ?cfg (exampleTableau belowAndAtThreshold (1 / 100)) 0 (exampleTightener 0 10))))"
    "0 \<notin> set (touchedVariables (exampleTightener 0 10) (snd (tightenOnSingleInvertedBasisRow
       ?cfg thresholdRow (exampleTightener 0 10))))"
    "keptConstraintEntry ?cfg (SparseEntry 1 (1 / 100))"
    "keptInvertedBasisEntry ?cfg (TableauRowEntry 1 (1 / 100))"
    by blast+
  with e show ?thesis by simp
qed

text \<open>
  The claim as stated fails: the only entry of the row \<open>0.01 x0 = 0.01\<close> has its
  coefficient exactly at the threshold, and both bounds of \<open>x0\<close> are registered.
\<close>

theorem threshold_entry_not_skipped_counterexample:
  "entryValue (SparseEntry 0 (1 / 100)) = MINIMAL_COEFFICIENT_FOR_TIGHTENING (exampleConfiguration True) \<and>
   getSparseARow (exampleTableau [SparseEntry 0 (1 / 100)] (1 / 100)) 0 = [SparseEntry 0 (1 / 100)] \<and>
   registered (snd (tightenOnSingleConstraintRow (exampleConfiguration True)
     (exampleTableau [SparseEntry 0 (1 / 100)] (1 / 100)) 0 (exampleTightener 0 10)))
   = [Tightening 0 1 LB, Tightening 0 1 UB]"
  by code_simp

text \<open>
  A coefficient below the threshold by less than the comparison tolerance is not below it
  for \<open>FloatUtils::lt\<close>: the only entry of the row \<open>(0.01 - 5e-11) x0 = 0.01\<close> gets
  its two bounds.
\<close>

lemma coefficient_within_tolerance_example:
  "\<bar>entryValue (SparseEntry 0 (1 / 100 - 5 / 10 ^ 11))\<bar>
     < MINIMAL_COEFFICIENT_FOR_TIGHTENING (exampleConfiguration True) \<and>
   touchedVariables (exampleTightener 0 10) (snd (tightenOnSingleConstraintRow
     (exampleConfiguration True)
     (exampleTableau [SparseEntry 0 (1 / 100 - 5 / 10 ^ 11)] (1 / 100)) 0
     (exampleTightener 0 10))) = [0, 0]"
  by code_simp

subsection \<open>The rounding constant\<close>

text \<open>
  C3, as amended. On a row of the inverted basis every lower bound that is registered is
  the derived value minus \<open>EXPLICIT_BASIS_BOUND_TIGHTENING_ROUNDING_CONSTANT\<close> and every
  upper bound is the derived value plus it, for the basic variable and for every entry
  that is kept. On a well-formed row of the constraint matrix the derived values are
  registered as they are, without the rounding constant.
\<close>

theorem rounding_constant_on_inverted_basis_only:
  "(\<exists>k \<le> length (filter (keptInvertedBasisEntry cfg) (row r)).
      registered (snd (tightenOnSingleInvertedBasisRow cfg r st))
        = registered st @
          [Tightening (lhs r)
             (derivedLowerForY cfg st r - EXPLICIT_BASIS_BOUND_TIGHTENING_ROUNDING_CONSTANT cfg) LB,
           Tightening (lhs r)
             (derivedUpperForY cfg st r + EXPLICIT_BASIS_BOUND_TIGHTENING_ROUNDING_CONSTANT cfg) UB] @
          concat (map (\<lambda>e.
              [Tightening (var e)
                 (fst (derivedForX cfg st r e) - EXPLICIT_BASIS_BOUND_TIGHTENING_ROUNDING_CONSTANT cfg) LB,
               Tightening (var e)
                 (snd (derivedForX cfg st r e) + EXPLICIT_BASIS_BOUND_TIGHTENING_ROUNDING_CONSTANT cfg) UB])
            (take k (filter (keptInvertedBasisEntry cfg) (row r)))) \<and>
      (\<forall>x. fst (tightenOnSingleInvertedBasisRow cfg r st) = Inr x \<longrightarrow>
           k = length (filter (keptInvertedBasisEntry cfg) (row r)))) \<and>
   (wellFormedRow tableau i \<longrightarrow>
      (\<exists>k \<le> length (filter (keptConstraintEntry cfg) (getSparseARow tableau i)).
         registered (snd (tightenOnSingleConstraintRow cfg tableau i st))
           = registered st @
             concat (map (\<lambda>e.
                 [Tightening (entryIndex e) (fst (derivedForConstraintEntry cfg tableau st i e)) LB,
                  Tightening (entryIndex e) (snd (derivedForConstraintEntry cfg tableau st i e)) UB])
               (take k (filter (keptConstraintEntry cfg) (getSparseARow tableau i)))) \<and>
         (\<forall>x. fst (tightenOnSingleConstraintRow cfg tableau i st) = Inr x \<longrightarrow>
              k = length (filter (keptConstraintEntry cfg) (getSparseARow tableau i)))))"
proof (intro conjI impI)
  obtain res st' where t: "tightenOnSingleInvertedBasisRow cfg r st = (res, st')"
    by (cases "tightenOnSingleInvertedBasisRow cfg r st")
  from tightenOnSingleInvertedBasisRow_requests [OF t]
  show "\<exists>k \<le> length (filter (keptInvertedBasisEntry cfg) (row r)).
      registered (snd (tightenOnSingleInvertedBasisRow cfg r st))
        = registered st @
          [Tightening (lhs r)
             (derivedLowerForY cfg st r - EXPLICIT_BASIS_BOUND_TIGHTENING_ROUNDING_CONSTANT cfg) LB,
           Tightening (lhs r)
             (derivedUpperForY cfg st r + EXPLICIT_BASIS_BOUND_TIGHTENING_ROUNDING_CONSTANT cfg) UB] @
          concat (map (\<lambda>e.
              [Tightening (var e)
                 (fst (derivedForX cfg st r e) - EXPLICIT_BASIS_BOUND_TIGHTENING_ROUNDING_CONSTANT cfg) LB,
               Tightening (var e)
                 (snd (derivedForX cfg st r e) + EXPLICIT_BASIS_BOUND_TIGHTENING_ROUNDING_CONSTANT cfg) UB])
            (take k (filter (keptInvertedBasisEntry cfg) (row r)))) \<and>
      (\<forall>x. fst (tightenOnSingleInvertedBasisRow cfg r st) = Inr x \<longrightarrow>
           k = length (filter (keptInvertedBasisEntry cfg) (row r)))"
    unfolding t requestsForY_def requestsForX_def by simp
next
  assume wf: "wellFormedRow tableau i"
  obtain res st' where t: "tightenOnSingleConstraintRow cfg tableau i st = (res, st')"
    by (cases "tightenOnSingleConstraintRow cfg tableau i st")
  from tightenOnSingleConstraintRow_requests [OF t wf]
  show "\<exists>k \<le> length (filter (keptConstraintEntry cfg) (getSparseARow tableau i)).
         registered (snd (tightenOnSingleConstraintRow cfg tableau i st))
           = registered st @
             concat (map (\<lambda>e.
                 [Tightening (entryIndex e) (fst (derivedForConstraintEntry cfg tableau st i e)) LB,
                  Tightening (entryIndex e) (snd (derivedForConstraintEntry cfg tableau st i e)) UB])
               (take k (filter (keptConstraintEntry cfg) (getSparseARow tableau i)))) \<and>
         (\<forall>x. fst (tightenOnSingleConstraintRow cfg tableau i st) = Inr x \<longrightarrow>
              k = length (filter (keptConstraintEntry cfg) (getSparseARow tableau i)))"
    unfolding t requestsForConstraintEntry_def by simp
qed

text \<open>
  The row \<open>2 x0 = 4\<close> of the constraint matrix registers 2 and 2; the row
  \<open>x2 = 2 - x0 - x1\<close> of the inverted basis, with all variables in \<open>[0, 1]\<close>,
  registers each derived bound moved outwards by the rounding constant.
\<close>

theorem rounding_constant_on_inverted_basis_only_witness:
  "wellFormedRow (exampleTableau [SparseEntry 0 2] 4) 0 \<and>
   registered (snd (tightenOnSingleConstraintRow (exampleConfiguration True)
     (exampleTableau [SparseEntry 0 2] 4) 0 (exampleTightener 0 10)))
     = [Tightening 0 2 LB, Tightening 0 2 UB] \<and>
   registered (snd (tightenOnSingleInvertedBasisRow (exampleConfiguration True)
     (getPivotRow (exampleTableau sumOfThree 2)) (exampleTightener 0 1)))
     = [Tightening 2 (0 - 1 / 10 ^ 10) LB, Tightening 2 (2 + 1 / 10 ^ 10) UB,
        Tightening 0 (0 - 1 / 10 ^ 10) LB, Tightening 0 (2 + 1 / 10 ^ 10) UB,
        Tightening 1 (0 - 1 / 10 ^ 10) LB, Tightening 1 (2 + 1 / 10 ^ 10) UB]"
proof -
  have e: "wellFormedRow (exampleTableau [SparseEntry 0 2] 4) 0"
    "registered (snd (tightenOnSingleConstraintRow (exampleConfiguration True)
     (exampleTableau [SparseEntry 0 2] 4) 0 (exampleTightener 0 10)))
     = [Tightening 0 2 LB, Tightening 0 2 UB]"
    "registered (snd (tightenOnSingleInvertedBasisRow (exampleConfiguration True)
     (getPivotRow (exampleTableau sumOfThree 2)) (exampleTightener 0 1)))
     = [Tightening 2 (0 - 1 / 10 ^ 10) LB, Tightening 2 (2 + 1 / 10 ^ 10) UB,
        Tightening 0 (0 - 1 / 10 ^ 10) LB, Tightening 0 (2 + 1 / 10 ^ 10) UB,
        Tightening 1 (0 - 1 / 10 ^ 10) LB, Tightening 1 (2 + 1 / 10 ^ 10) UB]"
    by code_simp+
  from rounding_constant_on_inverted_basis_only
         [of "exampleConfiguration True" "getPivotRow (exampleTableau sumOfThree 2)"
             "exampleTightener 0 1" "exampleTableau [SparseEntry 0 2] 4" 0] e
  show ?thesis by blast
qed

text \<open>
  The claim as stated fails in the constraint-matrix pass: for the row \<open>2 x0 = 4\<close> the
  derived bounds of \<open>x0\<close> are 2 and 2, and 2 is what is registered, not 2 minus or plus
  the rounding constant.
\<close>

theorem constraint_row_rounding_counterexample:
  "derivedForConstraintEntry (exampleConfiguration True) (exampleTableau [SparseEntry 0 2] 4)
     (exampleTightener 0 10) 0 (SparseEntry 0 2) = (2, 2) \<and>
   registered (snd (tightenOnSingleConstraintRow (exampleConfiguration True)
     (exampleTableau [SparseEntry 0 2] 4) 0 (exampleTightener 0 10)))
     = [Tightening 0 2 LB, Tightening 0 2 UB] \<and>
   (2 :: real) \<noteq> 2 - EXPLICIT_BASIS_BOUND_TIGHTENING_ROUNDING_CONSTANT (exampleConfiguration True) \<and>
   (2 :: real) \<noteq> 2 + EXPLICIT_BASIS_BOUND_TIGHTENING_ROUNDING_CONSTANT (exampleConfiguration True)"
  by code_simp

subsection \<open>The bound of the basic variable\<close>

text \<open>
  C10. Whatever the value of \<open>MINIMAL_COEFFICIENT_FOR_TIGHTENING\<close>, the first two bounds
  that \<open>tightenOnSingleInvertedBasisRow\<close> registers are those of the basic variable
  \<open>y\<close>, and their values are the scalar plus the sum of \<open>termLower\<close>, or of
  \<open>termUpper\<close>, over every entry of the row (moved by the rounding constant): an entry
  contributes unless its coefficient is zero for \<open>isZero\<close>, however small it is. The
  threshold is consulted only in the loop over the non-basic variables.
\<close>

theorem basic_variable_bound_ignores_threshold:
  "take 2 (drop (length (registered st))
     (registered (snd (tightenOnSingleInvertedBasisRow
        (cfg\<lparr>MINIMAL_COEFFICIENT_FOR_TIGHTENING := threshold\<rparr>) r st))))
   = [Tightening (lhs r)
        (scalar r + sum_list (map (termLower cfg st) (row r))
           - EXPLICIT_BASIS_BOUND_TIGHTENING_ROUNDING_CONSTANT cfg) LB,
      Tightening (lhs r)
        (scalar r + sum_list (map (termUpper cfg st) (row r))
           + EXPLICIT_BASIS_BOUND_TIGHTENING_ROUNDING_CONSTANT cfg) UB]"
proof -
  let ?cfg = "cfg\<lparr>MINIMAL_COEFFICIENT_FOR_TIGHTENING := threshold\<rparr>"
  obtain res st' where t: "tightenOnSingleInvertedBasisRow ?cfg r st = (res, st')"
    by (cases "tightenOnSingleInvertedBasisRow ?cfg r st")
  from tightenOnSingleInvertedBasisRow_requests [OF t] obtain rest where
    "registered st' = registered st @ requestsForY ?cfg st r @ rest" by blast
  moreover have "termLower ?cfg st = termLower cfg st" "termUpper ?cfg st = termUpper cfg st"
    by (rule ext, auto simp: termLower_def termUpper_def isZero_def isPositive_def Let_def)+
  then have "requestsForY ?cfg st r = requestsForY cfg st r"
    by (simp add: requestsForY_def derivedLowerForY_def derivedUpperForY_def)
  ultimately show ?thesis
    by (simp add: t requestsForY_def derivedLowerForY_def derivedUpperForY_def)
qed

text \<open>
  In the row \<open>x2 = 0.001 x0 + 5\<close> with \<open>x0\<close> in \<open>[0, 1000]\<close> the coefficient is
  below the threshold 0.01: \<open>x2\<close> gets the bounds 5 and 6 (moved by the rounding
  constant), which count the entry in, and \<open>x0\<close> gets none.
\<close>

lemma basic_variable_bound_example:
  "registered (snd (tightenOnSingleInvertedBasisRow (exampleConfiguration True)
     smallCoefficientRow (exampleTightener 0 1000)))
   = [Tightening 2 (5 - 1 / 10 ^ 10) LB, Tightening 2 (6 + 1 / 10 ^ 10) UB]"
  by code_simp

end
